theory Spec2Isabelle
  imports Complex_Main
begin

section \<open>Spatial entities (src/room.py)\<close>

text \<open>
  Coordinates and footprints are Python floats; they are modelled as real numbers
  (rounding is not modelled). Orientations and the loop counters are Python ints.
  The fields of \<^verbatim>\<open>Furniture\<close> carry the prefix \<open>f_\<close>, the keys of a fixed-element
  dictionary the prefix \<open>e_\<close>, because \<open>length\<close>, \<open>x\<close> and \<open>y\<close> are taken.
\<close>

record furniture =
  f_name :: string
  f_width :: real
  f_length :: real
  f_movable :: bool
  f_x :: real
  f_y :: real
  f_orientation :: int

record element =
  e_name :: string
  e_x :: real
  e_y :: real
  e_width :: real
  e_length :: real

text \<open>\<^verbatim>\<open>Furniture.__init__(name, width, length, movable=True, x=0, y=0, orientation=0)\<close>\<close>

definition Furniture :: "string \<Rightarrow> real \<Rightarrow> real \<Rightarrow> bool \<Rightarrow> real \<Rightarrow> real \<Rightarrow> int \<Rightarrow> furniture" where
  "Furniture n w l m px py ori =
     \<lparr>f_name = n, f_width = w, f_length = l, f_movable = m, f_x = px, f_y = py,
      f_orientation = ori\<rparr>"

text \<open>\<^verbatim>\<open>set_position(x, y)\<close>, called without an orientation everywhere in the optimizer.\<close>

definition set_position :: "furniture \<Rightarrow> real \<Rightarrow> real \<Rightarrow> furniture" where
  "set_position f px py = f\<lparr>f_x := px, f_y := py\<rparr>"

text \<open>
  \<^verbatim>\<open>rotate\<close>: the orientation advances by 90 modulo 360, and width and length are
  exchanged when the new orientation is 90 or 270.
\<close>

definition rotate_f :: "furniture \<Rightarrow> furniture" where
  "rotate_f f =
     (let ori = (f_orientation f + 90) mod 360;
          f1 = f\<lparr>f_orientation := ori\<rparr>
      in if ori = 90 \<or> ori = 270
         then f1\<lparr>f_width := f_length f1, f_length := f_width f1\<rparr>
         else f1)"

text \<open>
  The effective dimensions as the specification words them: the base pair, exchanged
  exactly when the orientation is 90 or 270.
\<close>

definition spec_effective_dimensions :: "real \<Rightarrow> real \<Rightarrow> int \<Rightarrow> real \<times> real" where
  "spec_effective_dimensions bw bl ori = (if ori = 90 \<or> ori = 270 then (bl, bw) else (bw, bl))"

section \<open>Library operations used by the optimizer\<close>

datatype py_error = ValueError | IndexError

text \<open>Python's \<^verbatim>\<open>int(r)\<close> on a float truncates towards zero.\<close>

definition py_int :: "real \<Rightarrow> int" where
  "py_int r = (if 0 \<le> r then \<lfloor>r\<rfloor> else \<lceil>r\<rceil>)"

text \<open>
  \<^verbatim>\<open>np.zeros((h, w))\<close> raises ValueError on a negative dimension. A grid is the list of
  its rows.
\<close>

definition np_zeros :: "int \<Rightarrow> int \<Rightarrow> py_error + real list list" where
  "np_zeros h w =
     (if h < 0 \<or> w < 0 then Inl ValueError
      else Inr (replicate (nat h) (replicate (nat w) 0)))"

text \<open>
  A slice bound \<open>i\<close> on an axis of length \<open>n\<close>: a negative bound counts from the end, and
  the result is clipped to \<open>0..n\<close>.
\<close>

definition slice_index :: "int \<Rightarrow> nat \<Rightarrow> nat" where
  "slice_index i n =
     (if i < 0 then (if i + int n < 0 then 0 else nat (i + int n))
      else if int n \<le> i then n else nat i)"

definition fill_row :: "nat \<Rightarrow> nat \<Rightarrow> real list \<Rightarrow> real list" where
  "fill_row a b row = map (\<lambda>(c, v). if a \<le> c \<and> c < b then 1 else v) (enumerate 0 row)"

text \<open>\<^verbatim>\<open>grid[y1:y2, x1:x2] = 1\<close>\<close>

definition grid_assign :: "real list list \<Rightarrow> int \<Rightarrow> int \<Rightarrow> int \<Rightarrow> int \<Rightarrow> real list list" where
  "grid_assign grid y1 y2 x1 x2 =
     map (\<lambda>(r, row).
            if slice_index y1 (length grid) \<le> r \<and> r < slice_index y2 (length grid)
            then fill_row (slice_index x1 (length row)) (slice_index x2 (length row)) row
            else row)
         (enumerate 0 grid)"

text \<open>\<^verbatim>\<open>np.sum(grid == 0)\<close> and \<^verbatim>\<open>grid.size\<close>\<close>

definition count_zero :: "real list list \<Rightarrow> nat" where
  "count_zero grid = sum_list (map (\<lambda>row. length (filter (\<lambda>v. v = 0) row)) grid)"

definition grid_cells :: "real list list \<Rightarrow> nat" where
  "grid_cells grid = sum_list (map length grid)"

text \<open>A list read at an index that is never negative here: IndexError out of range.\<close>

definition py_index :: "'a list \<Rightarrow> nat \<Rightarrow> py_error + 'a" where
  "py_index xs i = (if i < length xs then Inr (xs ! i) else Inl IndexError)"

text \<open>
  \<^verbatim>\<open>np.argmax\<close>: the index of the first occurrence of the maximum, ValueError on an empty
  sequence.
\<close>

fun argmax_from :: "real list \<Rightarrow> nat \<Rightarrow> nat \<Rightarrow> real \<Rightarrow> nat" where
  "argmax_from [] i best_i best = best_i"
| "argmax_from (v # vs) i best_i best =
     (if v > best then argmax_from vs (Suc i) i v else argmax_from vs (Suc i) best_i best)"

definition np_argmax :: "real list \<Rightarrow> py_error + nat" where
  "np_argmax xs = (case xs of [] \<Rightarrow> Inl ValueError | v # vs \<Rightarrow> Inr (argmax_from vs 1 0 v))"

text \<open>
  \<^verbatim>\<open>np.argsort\<close> returns the indices in ascending order of their values. Line 195 calls
  it with the default sort, which promises nothing about the order of equal values. The
  function is therefore a parameter \<open>srt\<close> of everything that calls it, and \<open>is_argsort\<close> says
  what is known of its result: a rearrangement of all the indices, ascending in the values.
\<close>

type_synonym argsort = "real list \<Rightarrow> nat list"

definition is_argsort :: "real list \<Rightarrow> nat list \<Rightarrow> bool" where
  "is_argsort xs idxs \<longleftrightarrow>
     length idxs = length xs \<and> distinct idxs \<and> set idxs = {..<length xs} \<and>
     sorted (map (\<lambda>i. xs ! i) idxs)"

text \<open>One such function: the insertion sort, which keeps equal values in index order.\<close>

definition stable_argsort :: argsort where
  "stable_argsort xs = sort_key (\<lambda>i. xs ! i) [0..<length xs]"

text \<open>\<^verbatim>\<open>copy.deepcopy\<close> on values: the same value (values are never shared in the model).\<close>

definition deepcopy :: "'a \<Rightarrow> 'a" where
  "deepcopy v = v"

subsection \<open>The random source\<close>

text \<open>
  The generator is the stream of the raw values it will deliver, read through their
  fractional parts. \<^verbatim>\<open>random.random()\<close> returns a number in \<open>[0, 1)\<close>;
  \<^verbatim>\<open>random.uniform(a, b)\<close> is \<^verbatim>\<open>a + (b - a) * random()\<close>; \<^verbatim>\<open>random.sample(range(n), k)\<close>
  raises ValueError when \<open>k > n\<close> and otherwise picks \<open>k\<close> times an index below the size
  of a shrinking pool, moving the last pool member into the vacancy. (That is the library's
  procedure for up to 21 candidates; for more it draws again until the index is unused. Both
  return \<open>k\<close> distinct indices below \<open>n\<close>, which is all that is used of the result.)
\<close>

type_synonym rng = "nat \<Rightarrow> real"

definition rng_tail :: "rng \<Rightarrow> rng" where
  "rng_tail g = (\<lambda>n. g (Suc n))"

definition random_random :: "rng \<Rightarrow> real \<times> rng" where
  "random_random g = (frac (g 0), rng_tail g)"

definition random_uniform :: "real \<Rightarrow> real \<Rightarrow> rng \<Rightarrow> real \<times> rng" where
  "random_uniform a b g = (let (r, g1) = random_random g in (a + (b - a) * r, g1))"

definition randbelow :: "nat \<Rightarrow> rng \<Rightarrow> nat \<times> rng" where
  "randbelow n g = (nat \<lfloor>frac (g 0) * real n\<rfloor>, rng_tail g)"

fun sample_pool :: "nat list \<Rightarrow> nat \<Rightarrow> rng \<Rightarrow> nat list \<times> rng" where
  "sample_pool pool 0 g = ([], g)"
| "sample_pool pool (Suc k) g =
     (let (j, g1) = randbelow (length pool) g;
          chosen = pool ! j;
          (rest, g2) = sample_pool (butlast (pool[j := last pool])) k g1
      in (chosen # rest, g2))"

definition random_sample :: "nat \<Rightarrow> nat \<Rightarrow> rng \<Rightarrow> py_error + (nat list \<times> rng)" where
  "random_sample n k g = (if k > n then Inl ValueError else Inr (sample_pool [0..<n] k g))"

section \<open>The optimizer's configuration (src/optimizer.py)\<close>

record config =
  room_length :: real
  room_width :: real
  furniture_list :: "furniture list"
  fixed_elements :: "element list"
  population_size :: int
  generations :: int
  mutation_rate :: real
  elitism_count :: int

text \<open>
  \<^verbatim>\<open>GeneticLayoutOptimizer.__init__\<close> stores its arguments; a missing or empty list of fixed
  elements becomes the empty list. Nothing is checked.
\<close>

definition GeneticLayoutOptimizer ::
  "real \<Rightarrow> real \<Rightarrow> furniture list \<Rightarrow> element list option \<Rightarrow> int \<Rightarrow> int \<Rightarrow> real \<Rightarrow> int \<Rightarrow> config" where
  "GeneticLayoutOptimizer rl rw fl fe ps gens mr ec =
     \<lparr>room_length = rl, room_width = rw, furniture_list = fl,
      fixed_elements = (case fe of None \<Rightarrow> [] | Some es \<Rightarrow> es),
      population_size = ps, generations = gens, mutation_rate = mr, elitism_count = ec\<rparr>"

section \<open>Fitness\<close>

text \<open>The test of lines 59-62: an item against a fixed element.\<close>

definition overlaps_fixed :: "furniture \<Rightarrow> element \<Rightarrow> bool" where
  "overlaps_fixed f e \<longleftrightarrow>
     f_x f < e_x e + e_width e \<and> f_x f + f_length f > e_x e \<and>
     f_y f < e_y e + e_length e \<and> f_y f + f_width f > e_y e"

text \<open>The test of lines 71-74: an item against a later item.\<close>

definition overlaps_furniture :: "furniture \<Rightarrow> furniture \<Rightarrow> bool" where
  "overlaps_furniture f1 f2 \<longleftrightarrow>
     f_x f1 < f_x f2 + f_length f2 \<and> f_x f1 + f_length f1 > f_x f2 \<and>
     f_y f1 < f_y f2 + f_width f2 \<and> f_y f1 + f_width f1 > f_y f2"

fun fixed_inner :: "furniture \<Rightarrow> element list \<Rightarrow> real \<Rightarrow> real" where
  "fixed_inner f [] score = score"
| "fixed_inner f (e # es) score =
     fixed_inner f es (if overlaps_fixed f e then score - 20 else score)"

fun fixed_loop :: "furniture list \<Rightarrow> element list \<Rightarrow> real \<Rightarrow> real" where
  "fixed_loop [] es score = score"
| "fixed_loop (f # fs) es score = fixed_loop fs es (fixed_inner f es score)"

text \<open>
  The loops over \<open>i\<close> and \<open>j > i\<close>: the first item against every later one, then the
  same for the rest.
\<close>

fun pair_inner :: "furniture \<Rightarrow> furniture list \<Rightarrow> real \<Rightarrow> real" where
  "pair_inner f1 [] score = score"
| "pair_inner f1 (f2 # fs) score =
     pair_inner f1 fs (if overlaps_furniture f1 f2 then score - 15 else score)"

fun pair_loop :: "furniture list \<Rightarrow> real \<Rightarrow> real" where
  "pair_loop [] score = score"
| "pair_loop (f # fs) score = pair_loop fs (pair_inner f fs score)"

definition min_wall_dist :: "config \<Rightarrow> furniture \<Rightarrow> real" where
  "min_wall_dist cfg f =
     (let dist_left = f_x f;
          dist_right = room_length cfg - (f_x f + f_length f);
          dist_top = f_y f;
          dist_bottom = room_width cfg - (f_y f + f_width f)
      in min (min (min dist_left dist_right) dist_top) dist_bottom)"

fun wall_loop :: "config \<Rightarrow> furniture list \<Rightarrow> real \<Rightarrow> real" where
  "wall_loop cfg [] score = score"
| "wall_loop cfg (f # fs) score =
     wall_loop cfg fs (if min_wall_dist cfg f < 1 / 10 then score + 5 else score)"

definition grid_size :: real where
  "grid_size = 20"

definition add_fixed :: "element \<Rightarrow> real list list \<Rightarrow> real list list" where
  "add_fixed e grid =
     (let x1 = py_int (e_x e * grid_size);
          y1 = py_int (e_y e * grid_size);
          x2 = py_int ((e_x e + e_width e) * grid_size);
          y2 = py_int ((e_y e + e_length e) * grid_size)
      in grid_assign grid y1 y2 x1 x2)"

definition add_furniture :: "furniture \<Rightarrow> real list list \<Rightarrow> real list list" where
  "add_furniture f grid =
     (let x1 = py_int (f_x f * grid_size);
          y1 = py_int (f_y f * grid_size);
          x2 = py_int ((f_x f + f_length f) * grid_size);
          y2 = py_int ((f_y f + f_width f) * grid_size)
      in grid_assign grid y1 y2 x1 x2)"

text \<open>
  The score before the walkability term: 100, then the three loops of lines 57-88.
\<close>

definition placement_score :: "config \<Rightarrow> furniture list \<Rightarrow> real" where
  "placement_score cfg individual =
     wall_loop cfg individual
       (pair_loop individual (fixed_loop individual (fixed_elements cfg) 100))"

text \<open>
  \<^verbatim>\<open>calculate_fitness\<close>. When the grid has no cell, numpy's division gives nan, the score
  becomes nan, and \<^verbatim>\<open>max(0, nan)\<close> returns its first argument, 0.
\<close>

definition calculate_fitness :: "config \<Rightarrow> furniture list \<Rightarrow> py_error + real" where
  "calculate_fitness cfg individual =
     (let score = placement_score cfg individual
      in case np_zeros (py_int (room_width cfg * grid_size))
                       (py_int (room_length cfg * grid_size)) of
           Inl err \<Rightarrow> Inl err
         | Inr grid0 \<Rightarrow>
             (let grid1 = fold add_fixed (fixed_elements cfg) grid0;
                  grid2 = fold add_furniture individual grid1;
                  empty_cells = count_zero grid2;
                  total_cells = grid_cells grid2
              in if total_cells = 0 then Inr 0
                 else Inr (max 0 (score + real empty_cells / real total_cells * 30))))"

section \<open>Population operators\<close>

text \<open>\<^verbatim>\<open>initialize_population\<close>: the body of the inner loop, one individual, the population.\<close>

definition init_item :: "config \<Rightarrow> furniture \<Rightarrow> rng \<Rightarrow> furniture \<times> rng" where
  "init_item cfg furn g =
     (let furn_copy = deepcopy furn;
          (r, g1) = random_random g;
          furn_copy = (if r > 1 / 2 then rotate_f furn_copy else furn_copy);
          (px, g2) = random_uniform 0 (room_length cfg - f_length furn_copy) g1;
          (py, g3) = random_uniform 0 (room_width cfg - f_width furn_copy) g2
      in (set_position furn_copy px py, g3))"

fun init_individual :: "config \<Rightarrow> furniture list \<Rightarrow> rng \<Rightarrow> furniture list \<times> rng" where
  "init_individual cfg [] g = ([], g)"
| "init_individual cfg (furn # fs) g =
     (let (item, g1) = init_item cfg furn g;
          (rest, g2) = init_individual cfg fs g1
      in (item # rest, g2))"

fun init_population :: "config \<Rightarrow> nat \<Rightarrow> rng \<Rightarrow> furniture list list \<times> rng" where
  "init_population cfg 0 g = ([], g)"
| "init_population cfg (Suc n) g =
     (let (individual, g1) = init_individual cfg (furniture_list cfg) g;
          (rest, g2) = init_population cfg n g1
      in (individual # rest, g2))"

definition initialize_population :: "config \<Rightarrow> rng \<Rightarrow> furniture list list \<times> rng" where
  "initialize_population cfg g = init_population cfg (nat (population_size cfg)) g"

text \<open>
  \<^verbatim>\<open>select_parents\<close>: one round of the loop is a tournament among three sampled indices;
  the size 3 is a local constant.
\<close>

definition tournament_size :: nat where
  "tournament_size = 3"

fun index_all :: "'a list \<Rightarrow> nat list \<Rightarrow> py_error + 'a list" where
  "index_all xs [] = Inr []"
| "index_all xs (i # is) =
     (case py_index xs i of
        Inl err \<Rightarrow> Inl err
      | Inr v \<Rightarrow> (case index_all xs is of Inl err \<Rightarrow> Inl err | Inr vs \<Rightarrow> Inr (v # vs)))"

definition tournament ::
  "furniture list list \<Rightarrow> real list \<Rightarrow> rng \<Rightarrow> py_error + (furniture list \<times> rng)" where
  "tournament population fitness_scores g =
     (case random_sample (length population) tournament_size g of
        Inl err \<Rightarrow> Inl err
      | Inr (tournament_indices, g1) \<Rightarrow>
          (case index_all fitness_scores tournament_indices of
             Inl err \<Rightarrow> Inl err
           | Inr tournament_fitness \<Rightarrow>
               (case np_argmax tournament_fitness of
                  Inl err \<Rightarrow> Inl err
                | Inr w \<Rightarrow>
                    (case py_index tournament_indices w of
                       Inl err \<Rightarrow> Inl err
                     | Inr winner_idx \<Rightarrow>
                         (case py_index population winner_idx of
                            Inl err \<Rightarrow> Inl err
                          | Inr winner \<Rightarrow> Inr (winner, g1))))))"

definition select_parents ::
  "furniture list list \<Rightarrow> real list \<Rightarrow> rng \<Rightarrow>
   py_error + ((furniture list \<times> furniture list) \<times> rng)" where
  "select_parents population fitness_scores g =
     (case tournament population fitness_scores g of
        Inl err \<Rightarrow> Inl err
      | Inr (parent1, g1) \<Rightarrow>
          (case tournament population fitness_scores g1 of
             Inl err \<Rightarrow> Inl err
           | Inr (parent2, g2) \<Rightarrow> Inr ((parent1, parent2), g2)))"

text \<open>
  \<^verbatim>\<open>crossover\<close> walks the indices of parent1; \<^verbatim>\<open>parent2[i]\<close> is read only when the draw
  is at least one half, and raises IndexError when parent2 is too short.
\<close>

fun crossover ::
  "furniture list \<Rightarrow> furniture list \<Rightarrow> rng \<Rightarrow> py_error + (furniture list \<times> rng)" where
  "crossover [] parent2 g = Inr ([], g)"
| "crossover (a # parent1) parent2 g =
     (let (r, g1) = random_random g
      in if r < 1 / 2
         then (case crossover parent1 (tl parent2) g1 of
                 Inl err \<Rightarrow> Inl err
               | Inr (child, g2) \<Rightarrow> Inr (deepcopy a # child, g2))
         else (case parent2 of
                 [] \<Rightarrow> Inl IndexError
               | b # _ \<Rightarrow>
                   (case crossover parent1 (tl parent2) g1 of
                      Inl err \<Rightarrow> Inl err
                    | Inr (child, g2) \<Rightarrow> Inr (deepcopy b # child, g2))))"

definition mutate_item :: "config \<Rightarrow> furniture \<Rightarrow> rng \<Rightarrow> furniture \<times> rng" where
  "mutate_item cfg furn g =
     (let (r1, g1) = random_random g;
          (furn1, g2) =
            (if r1 < mutation_rate cfg
             then (let (px, ga) = random_uniform 0 (room_length cfg - f_length furn) g1;
                       (py, gb) = random_uniform 0 (room_width cfg - f_width furn) ga
                   in (set_position furn px py, gb))
             else (furn, g1));
          (r2, g3) = random_random g2
      in (if r2 < mutation_rate cfg then rotate_f furn1 else furn1, g3))"

fun mutate :: "config \<Rightarrow> furniture list \<Rightarrow> rng \<Rightarrow> furniture list \<times> rng" where
  "mutate cfg [] g = ([], g)"
| "mutate cfg (furn # fs) g =
     (let (item, g1) = mutate_item cfg furn g;
          (rest, g2) = mutate cfg fs g1
      in (item # rest, g2))"

section \<open>The generational loop\<close>

record run_state =
  population :: "furniture list list"
  best_individual :: "furniture list option"
  best_fitness :: real
  best_fitness_history :: "real list"

text \<open>\<^verbatim>\<open>[self.calculate_fitness(ind) for ind in population]\<close>: the first failure ends it.\<close>

fun fitness_all :: "config \<Rightarrow> furniture list list \<Rightarrow> py_error + real list" where
  "fitness_all cfg [] = Inr []"
| "fitness_all cfg (ind # inds) =
     (case calculate_fitness cfg ind of
        Inl err \<Rightarrow> Inl err
      | Inr v \<Rightarrow> (case fitness_all cfg inds of Inl err \<Rightarrow> Inl err | Inr vs \<Rightarrow> Inr (v # vs)))"

text \<open>
  Lines 181-186: the best-ever pair is replaced when the maximum of the generation is
  strictly greater, and the best-ever fitness is appended to the history.
\<close>

definition track_best :: "run_state \<Rightarrow> real list \<Rightarrow> py_error + run_state" where
  "track_best st fitness_scores =
     (case np_argmax fitness_scores of
        Inl err \<Rightarrow> Inl err
      | Inr max_fitness_idx \<Rightarrow>
          (case py_index fitness_scores max_fitness_idx of
             Inl err \<Rightarrow> Inl err
           | Inr m \<Rightarrow>
               (if m > best_fitness st
                then (case py_index (population st) max_fitness_idx of
                        Inl err \<Rightarrow> Inl err
                      | Inr ind \<Rightarrow>
                          Inr (st\<lparr>best_fitness := m, best_individual := Some (deepcopy ind),
                                  best_fitness_history := best_fitness_history st @ [m]\<rparr>))
                else Inr (st\<lparr>best_fitness_history :=
                               best_fitness_history st @ [best_fitness st]\<rparr>))))"

text \<open>
  Lines 195-197: \<^verbatim>\<open>sorted_indices = np.argsort(fitness_scores)[::-1]\<close>, then one deep copy
  of \<^verbatim>\<open>population[sorted_indices[i]]\<close> for every \<open>i\<close> below the elitism count.
\<close>

definition sorted_indices :: "argsort \<Rightarrow> real list \<Rightarrow> nat list" where
  "sorted_indices srt fitness_scores = rev (srt fitness_scores)"

fun elite_loop ::
  "furniture list list \<Rightarrow> nat list \<Rightarrow> nat list \<Rightarrow> py_error + furniture list list" where
  "elite_loop pop idxs [] = Inr []"
| "elite_loop pop idxs (i # is) =
     (case py_index idxs i of
        Inl err \<Rightarrow> Inl err
      | Inr idx \<Rightarrow>
          (case py_index pop idx of
             Inl err \<Rightarrow> Inl err
           | Inr ind \<Rightarrow>
               (case elite_loop pop idxs is of
                  Inl err \<Rightarrow> Inl err
                | Inr rest \<Rightarrow> Inr (deepcopy ind # rest))))"

definition elitism ::
  "argsort \<Rightarrow> config \<Rightarrow> furniture list list \<Rightarrow> real list \<Rightarrow> py_error + furniture list list" where
  "elitism srt cfg pop fitness_scores =
     elite_loop pop (sorted_indices srt fitness_scores) [0..<nat (elitism_count cfg)]"

text \<open>One round of the while loop of lines 200-210: parents, crossover, mutation.\<close>

definition make_child ::
  "config \<Rightarrow> furniture list list \<Rightarrow> real list \<Rightarrow> rng \<Rightarrow> py_error + (furniture list \<times> rng)" where
  "make_child cfg pop fitness_scores g =
     (case select_parents pop fitness_scores g of
        Inl err \<Rightarrow> Inl err
      | Inr ((parent1, parent2), g1) \<Rightarrow>
          (case crossover parent1 parent2 g1 of
             Inl err \<Rightarrow> Inl err
           | Inr (child, g2) \<Rightarrow> Inr (mutate cfg child g2)))"

function breed ::
  "config \<Rightarrow> furniture list list \<Rightarrow> real list \<Rightarrow> furniture list list \<Rightarrow> rng \<Rightarrow>
   py_error + (furniture list list \<times> rng)" where
  "breed cfg pop fitness_scores new_population g =
     (if int (length new_population) < population_size cfg
      then (case make_child cfg pop fitness_scores g of
              Inl err \<Rightarrow> Inl err
            | Inr (child, g1) \<Rightarrow> breed cfg pop fitness_scores (new_population @ [child]) g1)
      else Inr (new_population, g))"
  by pat_completeness auto
termination
  by (relation "measure (\<lambda>(cfg, pop, fs, new_population, g).
        nat (population_size cfg - int (length new_population)))") auto

text \<open>The equation of the loop is unfolded by hand, one round at a time.\<close>

declare breed.simps [simp del]

text \<open>
  One generation. A failure carries the history as the exception leaves it in
  \<^verbatim>\<open>self.best_fitness_history\<close>.
\<close>

definition generation ::
  "argsort \<Rightarrow> config \<Rightarrow> run_state \<Rightarrow> rng \<Rightarrow> (py_error \<times> real list) + (run_state \<times> rng)" where
  "generation srt cfg st g =
     (case fitness_all cfg (population st) of
        Inl err \<Rightarrow> Inl (err, best_fitness_history st)
      | Inr fitness_scores \<Rightarrow>
          (case track_best st fitness_scores of
             Inl err \<Rightarrow> Inl (err, best_fitness_history st)
           | Inr st1 \<Rightarrow>
               (case elitism srt cfg (population st) fitness_scores of
                  Inl err \<Rightarrow> Inl (err, best_fitness_history st1)
                | Inr elites \<Rightarrow>
                    (case breed cfg (population st) fitness_scores elites g of
                       Inl err \<Rightarrow> Inl (err, best_fitness_history st1)
                     | Inr (new_population, g1) \<Rightarrow>
                         Inr (st1\<lparr>population := new_population\<rparr>, g1)))))"

fun run_generations ::
  "argsort \<Rightarrow> config \<Rightarrow> nat \<Rightarrow> run_state \<Rightarrow> rng \<Rightarrow> (py_error \<times> real list) + (run_state \<times> rng)" where
  "run_generations srt cfg 0 st g = Inr (st, g)"
| "run_generations srt cfg (Suc n) st g =
     (case generation srt cfg st g of
        Inl eh \<Rightarrow> Inl eh
      | Inr (st1, g1) \<Rightarrow> run_generations srt cfg n st1 g1)"

text \<open>The state at line 174, before the first generation.\<close>

definition initial_state :: "config \<Rightarrow> rng \<Rightarrow> run_state \<times> rng" where
  "initial_state cfg g =
     (let (pop, g1) = initialize_population cfg g
      in (\<lparr>population = pop, best_individual = None, best_fitness = 0,
           best_fitness_history = []\<rparr>, g1))"

text \<open>
  \<^verbatim>\<open>optimize\<close>: the first component is \<^verbatim>\<open>self.best_fitness_history\<close> when the call ends,
  the second the exception raised or the pair returned.
\<close>

definition optimize ::
  "argsort \<Rightarrow> config \<Rightarrow> rng \<Rightarrow> real list \<times> (py_error + (furniture list option \<times> real))" where
  "optimize srt cfg g =
     (let (st0, g1) = initial_state cfg g
      in case run_generations srt cfg (nat (generations cfg)) st0 g1 of
           Inl (err, history) \<Rightarrow> (history, Inl err)
         | Inr (st, g2) \<Rightarrow>
             (best_fitness_history st, Inr (best_individual st, best_fitness st)))"

section \<open>Example inputs\<close>

text \<open>
  A room of 0.1 by 0.1 (a grid of 2 by 2 cells), one item of 0.05 by 0.05, a population
  of three, two generations, one elite; and a random source.
\<close>

definition example_config :: config where
  "example_config =
     GeneticLayoutOptimizer (1 / 10) (1 / 10) [Furniture ''chair'' (1 / 20) (1 / 20) True 0 0 0]
       None 3 2 (1 / 5) 1"

definition example_rng :: rng where
  "example_rng = (\<lambda>n. real n / 7)"

section \<open>The overlap test and the penalties as the specification words them\<close>

record rect =
  xmin :: real
  xmax :: real
  ymin :: real
  ymax :: real

text \<open>
  The rectangle an item covers has its length along x and its width along y (lines 81-83
  and 105-108); a fixed element has its width along x and its length along y (lines 97-100).
\<close>

definition furniture_rect :: "furniture \<Rightarrow> rect" where
  "furniture_rect f =
     \<lparr>xmin = f_x f, xmax = f_x f + f_length f, ymin = f_y f, ymax = f_y f + f_width f\<rparr>"

definition element_rect :: "element \<Rightarrow> rect" where
  "element_rect e =
     \<lparr>xmin = e_x e, xmax = e_x e + e_width e, ymin = e_y e, ymax = e_y e + e_length e\<rparr>"

definition spec_overlap :: "rect \<Rightarrow> rect \<Rightarrow> bool" where
  "spec_overlap a b \<longleftrightarrow>
     xmin a < xmax b \<and> xmax a > xmin b \<and> ymin a < ymax b \<and> ymax a > ymin b"

text \<open>The overlapping (item, obstacle) pairs and the overlapping unordered item pairs, by index.\<close>

definition overlapping_fixed :: "furniture list \<Rightarrow> element list \<Rightarrow> (nat \<times> nat) set" where
  "overlapping_fixed ind es =
     {(i, k). i < length ind \<and> k < length es \<and>
              spec_overlap (furniture_rect (ind ! i)) (element_rect (es ! k))}"

definition overlapping_pairs :: "furniture list \<Rightarrow> (nat \<times> nat) set" where
  "overlapping_pairs ind =
     {(i, j). i < j \<and> j < length ind \<and>
              spec_overlap (furniture_rect (ind ! i)) (furniture_rect (ind ! j))}"

text \<open>
  A family of inputs: a room of length \<open>n\<close> and width 1, and \<open>n\<close> unit squares side by side
  along the wall \<open>y = 0\<close>.
\<close>

definition long_room :: "nat \<Rightarrow> config" where
  "long_room n = GeneticLayoutOptimizer (real n) 1 [] None 3 1 (1 / 5) 1"

definition wall_row :: "nat \<Rightarrow> furniture list" where
  "wall_row n = map (\<lambda>i. Furniture ''shelf'' 1 1 True (real i) 0 0) [0..<n]"

text \<open>
  A room of 1 by 1 with a door on the left wall, and two items that overlap each other,
  one of them also the door.
\<close>

definition door_config :: config where
  "door_config =
     GeneticLayoutOptimizer 1 1 []
       (Some [\<lparr>e_name = ''Door'', e_x = 0, e_y = 0, e_width = 1 / 10, e_length = 9 / 10\<rparr>])
       3 1 (1 / 5) 1"

definition crossing_items :: "furniture list" where
  "crossing_items =
     [Furniture ''table'' (1 / 2) (1 / 2) True (1 / 4) 0 0,
      Furniture ''sofa'' (1 / 2) (1 / 2) True 0 (1 / 4) 0]"

text \<open>
  Three arrangements for \<open>example_config\<close> that differ in the position of the item and
  have the same fitness.
\<close>

definition tied_population :: "furniture list list" where
  "tied_population =
     [[Furniture ''chair'' (1 / 20) (1 / 20) True 0 0 0],
      [Furniture ''chair'' (1 / 20) (1 / 20) True (1 / 20) 0 0],
      [Furniture ''chair'' (1 / 20) (1 / 20) True 0 (1 / 20) 0]]"

text \<open>
  A room too narrow for a single grid row; the example room with an empty catalog; the
  example room with an item twice its size; and a source whose draws are all one half.
\<close>

definition narrow_config :: config where
  "narrow_config =
     GeneticLayoutOptimizer 1 (1 / 100) [Furniture ''chair'' (1 / 20) (1 / 20) True 0 0 0]
       None 3 2 (1 / 5) 1"

definition empty_catalog_config :: config where
  "empty_catalog_config = GeneticLayoutOptimizer (1 / 10) (1 / 10) [] None 3 2 (1 / 5) 1"

definition oversize_config :: config where
  "oversize_config =
     GeneticLayoutOptimizer (1 / 10) (1 / 10) [Furniture ''wardrobe'' (1 / 5) (1 / 5) True 0 0 0]
       None 3 1 (1 / 5) 1"

definition half_rng :: rng where
  "half_rng = (\<lambda>n. 1 / 2)"

text \<open>A source whose draws are all one tenth, below the mutation rate of the examples.\<close>

definition tenth_rng :: rng where
  "tenth_rng = (\<lambda>n. 1 / 10)"

section \<open>Elitism over a store of objects\<close>

text \<open>
  \<^verbatim>\<open>Furniture\<close> objects are mutable (\<^verbatim>\<open>set_position\<close> and \<^verbatim>\<open>rotate\<close> assign their fields),
  and an individual is a list of references to them. To speak about sharing, lines 195-197
  are modelled a second time over a store: a reference is a number, the store maps every
  reference to the object it holds, and the references below \<open>next_free\<close> are the ones in
  use. The lists themselves are not assigned to after they are built and stay values.
\<close>

record store =
  cells :: "nat \<Rightarrow> furniture"
  next_free :: nat

definition alloc :: "store \<Rightarrow> furniture \<Rightarrow> store \<times> nat" where
  "alloc s f =
     (s\<lparr>cells := (cells s)(next_free s := f), next_free := Suc (next_free s)\<rparr>, next_free s)"

text \<open>
  \<^verbatim>\<open>copy.deepcopy\<close> of a list of \<^verbatim>\<open>Furniture\<close> objects: every object is copied into a new
  one with the same fields; the memo makes an object that is met twice be copied once.
\<close>

fun deepcopy_refs :: "store \<Rightarrow> (nat \<times> nat) list \<Rightarrow> nat list \<Rightarrow> store \<times> nat list" where
  "deepcopy_refs s memo [] = (s, [])"
| "deepcopy_refs s memo (a # as) =
     (case map_of memo a of
        Some b \<Rightarrow> (let (s1, rest) = deepcopy_refs s memo as in (s1, b # rest))
      | None \<Rightarrow>
          (let (s1, b) = alloc s (cells s a);
               (s2, rest) = deepcopy_refs s1 ((a, b) # memo) as
           in (s2, b # rest)))"

definition deepcopy_individual :: "store \<Rightarrow> nat list \<Rightarrow> store \<times> nat list" where
  "deepcopy_individual s refs = deepcopy_refs s [] refs"

text \<open>The arrangement a list of references stands for.\<close>

definition read_individual :: "store \<Rightarrow> nat list \<Rightarrow> furniture list" where
  "read_individual s refs = map (cells s) refs"

fun elite_loop_refs ::
  "store \<Rightarrow> nat list list \<Rightarrow> nat list \<Rightarrow> nat list \<Rightarrow> py_error + (store \<times> nat list list)" where
  "elite_loop_refs s pop idxs [] = Inr (s, [])"
| "elite_loop_refs s pop idxs (i # is) =
     (case py_index idxs i of
        Inl err \<Rightarrow> Inl err
      | Inr idx \<Rightarrow>
          (case py_index pop idx of
             Inl err \<Rightarrow> Inl err
           | Inr ind \<Rightarrow>
               (let (s1, copy) = deepcopy_individual s ind
                in case elite_loop_refs s1 pop idxs is of
                     Inl err \<Rightarrow> Inl err
                   | Inr (s2, rest) \<Rightarrow> Inr (s2, copy # rest))))"

definition elitism_refs ::
  "argsort \<Rightarrow> config \<Rightarrow> store \<Rightarrow> nat list list \<Rightarrow> real list \<Rightarrow> py_error + (store \<times> nat list list)" where
  "elitism_refs srt cfg s pop fitness_scores =
     elite_loop_refs s pop (sorted_indices srt fitness_scores) [0..<nat (elitism_count cfg)]"

text \<open>The three arrangements of \<open>tied_population\<close> as objects 0, 1 and 2 of a store.\<close>

definition tied_store :: store where
  "tied_store =
     \<lparr>cells = (\<lambda>a. hd (tied_population ! (if a < 3 then a else 0))), next_free = 3\<rparr>"

definition tied_refs :: "nat list list" where
  "tied_refs = [[0], [1], [2]]"

section \<open>Rotation\<close>

text \<open>
  C1. The claim: the pair (width, length) of an item is the base pair, exchanged iff the
  orientation is 90 or 270. The code exchanges the fields only on arriving at 90 or 270:
  an item built with width 1 and length 2 at orientation 0 and rotated twice stands at
  orientation 180 with width 2 and length 1, where the claim gives (1, 2).
\<close>

theorem rotate_twice_keeps_swap:
  "f_orientation (rotate_f (rotate_f (Furniture ''sofa'' 1 2 True 0 0 0))) = 180 \<and>
   (f_width (rotate_f (rotate_f (Furniture ''sofa'' 1 2 True 0 0 0))),
    f_length (rotate_f (rotate_f (Furniture ''sofa'' 1 2 True 0 0 0)))) = (2, 1) \<and>
   spec_effective_dimensions 1 2 180 = (1, 2)"
  by (simp add: rotate_f_def Furniture_def spec_effective_dimensions_def Let_def)

text \<open>
  C2. For an item whose orientation is one of 0, 90, 180, 270, four calls of rotate
  restore the width, the length and the orientation (and every other field).
\<close>

theorem rotate_four_times:
  "f_orientation f \<in> {0, 90, 180, 270} \<Longrightarrow> rotate_f (rotate_f (rotate_f (rotate_f f))) = f"
proof -
  assume "f_orientation f \<in> {0, 90, 180, 270}"
  then consider "f_orientation f = 0" | "f_orientation f = 90"
    | "f_orientation f = 180" | "f_orientation f = 270"
    by auto
  then show ?thesis
    by cases (simp_all add: rotate_f_def Let_def)
qed

theorem rotate_four_times_witness:
  "f_orientation (Furniture ''bed'' 3 5 True 1 2 90) \<in> {0, 90, 180, 270} \<and>
   rotate_f (rotate_f (rotate_f (rotate_f (Furniture ''bed'' 3 5 True 1 2 90)))) =
     Furniture ''bed'' 3 5 True 1 2 90"
  using rotate_four_times [of "Furniture ''bed'' 3 5 True 1 2 90"]
  by (simp add: Furniture_def)

section \<open>Library lemmas\<close>

lemma argmax_from_max:
  "length pre = i \<Longrightarrow> bi < i \<Longrightarrow> (pre @ vs) ! bi = b \<Longrightarrow> b = Max (set pre) \<Longrightarrow>
   argmax_from vs i bi b < i + length vs \<and>
   (pre @ vs) ! argmax_from vs i bi b = Max (set (pre @ vs))"
proof (induction vs arbitrary: pre i bi b)
  case Nil
  then show ?case by simp
next
  case (Cons v vs)
  have ne: "pre \<noteq> []" using Cons.prems by auto
  show ?case
  proof (cases "v > b")
    case True
    have mx: "Max (set (pre @ [v])) = max v b"
      using ne Cons.prems(4) by simp
    have m: "Max (set (pre @ [v])) = v"
      unfolding mx using True by (simp add: max_def)
    have "argmax_from vs (Suc i) i v < Suc i + length vs \<and>
          ((pre @ [v]) @ vs) ! argmax_from vs (Suc i) i v = Max (set ((pre @ [v]) @ vs))"
      by (rule Cons.IH) (use Cons.prems m in \<open>simp_all add: nth_append\<close>)
    then show ?thesis using True by simp
  next
    case False
    have mx: "Max (set (pre @ [v])) = max v b"
      using ne Cons.prems(4) by simp
    have m: "Max (set (pre @ [v])) = b"
      unfolding mx using False by (simp add: max_def)
    have "argmax_from vs (Suc i) bi b < Suc i + length vs \<and>
          ((pre @ [v]) @ vs) ! argmax_from vs (Suc i) bi b = Max (set ((pre @ [v]) @ vs))"
      by (rule Cons.IH) (use Cons.prems m in \<open>simp_all add: nth_append\<close>)
    then show ?thesis using False by simp
  qed
qed

lemma np_argmax_Inr:
  assumes "np_argmax xs = Inr i"
  shows "i < length xs \<and> xs ! i = Max (set xs)"
proof (cases xs)
  case Nil
  then show ?thesis using assms by (simp add: np_argmax_def)
next
  case (Cons v vs)
  then have i: "i = argmax_from vs 1 0 v" using assms by (simp add: np_argmax_def)
  have "argmax_from vs 1 0 v < 1 + length vs \<and>
        ([v] @ vs) ! argmax_from vs 1 0 v = Max (set ([v] @ vs))"
    by (rule argmax_from_max) simp_all
  then show ?thesis using i Cons by simp
qed

lemma np_argmax_empty: "np_argmax xs = Inl e \<longleftrightarrow> xs = [] \<and> e = ValueError"
  by (auto simp: np_argmax_def split: list.splits)

lemma np_argmax_nonempty: "xs \<noteq> [] \<Longrightarrow> \<exists>i. np_argmax xs = Inr i"
  by (cases xs) (simp_all add: np_argmax_def)

section \<open>The fitness history\<close>

lemma track_best_Inr:
  assumes "track_best st fs = Inr st'"
  shows "best_fitness_history st' = best_fitness_history st @ [best_fitness st'] \<and>
         best_fitness st' = (if Max (set fs) > best_fitness st then Max (set fs) else best_fitness st) \<and>
         (\<not> Max (set fs) > best_fitness st \<longrightarrow> best_individual st' = best_individual st) \<and>
         population st' = population st"
proof -
  obtain i where i: "np_argmax fs = Inr i"
    using assms by (auto simp: track_best_def split: sum.splits)
  from np_argmax_Inr[OF i] have il: "i < length fs" and im: "fs ! i = Max (set fs)" by auto
  show ?thesis
    using assms i il im
    by (auto simp: track_best_def py_index_def split: sum.splits if_splits)
qed

lemma track_best_history_sorted:
  assumes "track_best st fs = Inr st'"
    and "sorted (best_fitness_history st)"
    and "\<forall>h\<in>set (best_fitness_history st). h \<le> best_fitness st"
  shows "sorted (best_fitness_history st') \<and>
         (\<forall>h\<in>set (best_fitness_history st'). h \<le> best_fitness st')"
proof -
  from track_best_Inr[OF assms(1)]
  have h: "best_fitness_history st' = best_fitness_history st @ [best_fitness st']"
    and b: "best_fitness st \<le> best_fitness st'"
    by (auto split: if_splits)
  have le: "\<forall>x\<in>set (best_fitness_history st). x \<le> best_fitness st'"
    using assms(3) b by force
  show ?thesis
    unfolding h using assms(2) le by (simp add: sorted_append)
qed

lemma generation_history_sorted:
  assumes "sorted (best_fitness_history st)"
    and "\<forall>h\<in>set (best_fitness_history st). h \<le> best_fitness st"
  shows "case generation srt cfg st g of
           Inl (err, history) \<Rightarrow> sorted history
         | Inr (st', g') \<Rightarrow> sorted (best_fitness_history st') \<and>
             (\<forall>h\<in>set (best_fitness_history st'). h \<le> best_fitness st')"
  using assms track_best_history_sorted[of st _ _]
  by (auto simp: generation_def split: sum.splits prod.splits)

lemma run_generations_history_sorted:
  "sorted (best_fitness_history st) \<Longrightarrow>
   \<forall>h\<in>set (best_fitness_history st). h \<le> best_fitness st \<Longrightarrow>
   (case run_generations srt cfg n st g of
      Inl (err, history) \<Rightarrow> sorted history
    | Inr (st', g') \<Rightarrow> sorted (best_fitness_history st'))"
proof (induction n arbitrary: st g)
  case 0
  then show ?case by simp
next
  case (Suc n)
  show ?case
  proof (cases "generation srt cfg st g")
    case (Inl eh)
    then show ?thesis
      using generation_history_sorted[OF Suc.prems, of srt cfg g]
      by (auto split: prod.splits)
  next
    case (Inr sg)
    obtain st1 g1 where sg: "sg = (st1, g1)" by (cases sg)
    have "sorted (best_fitness_history st1) \<and>
          (\<forall>h\<in>set (best_fitness_history st1). h \<le> best_fitness st1)"
      using generation_history_sorted[OF Suc.prems, of srt cfg g] Inr sg by simp
    then show ?thesis
      using Suc.IH[of st1 g1] Inr sg by simp
  qed
qed

lemma optimize_history_sorted: "sorted (fst (optimize srt cfg g))"
proof -
  obtain st0 g1 where i: "initial_state cfg g = (st0, g1)" by (cases "initial_state cfg g")
  then have h0: "best_fitness_history st0 = []"
    by (auto simp: initial_state_def split: prod.splits)
  have "case run_generations srt cfg (nat (generations cfg)) st0 g1 of
          Inl (err, history) \<Rightarrow> sorted history
        | Inr (st', g') \<Rightarrow> sorted (best_fitness_history st')"
    by (rule run_generations_history_sorted) (simp_all add: h0)
  then show ?thesis
    by (auto simp: optimize_def i split: sum.splits prod.splits)
qed

text \<open>
  C4. In a generation that completes, the best-ever fitness becomes the maximum of the
  generation only when that maximum is strictly greater, and the best-ever fitness (not the
  maximum) is appended to the history; the history that \<^verbatim>\<open>optimize\<close> leaves is
  non-decreasing, whether the run returns or raises.
\<close>

theorem best_ever_history:
  "(generation srt cfg st g = Inr (st', g') \<longrightarrow>
      (\<exists>fs. fitness_all cfg (population st) = Inr fs \<and>
            best_fitness st' =
              (if Max (set fs) > best_fitness st then Max (set fs) else best_fitness st) \<and>
            best_fitness_history st' = best_fitness_history st @ [best_fitness st'])) \<and>
   sorted (fst (optimize srt cfg g0))"
proof (intro conjI impI)
  assume a: "generation srt cfg st g = Inr (st', g')"
  then obtain fs st1 where fs: "fitness_all cfg (population st) = Inr fs"
    and tb: "track_best st fs = Inr st1"
    and st': "st' = st1\<lparr>population := population st'\<rparr>"
    by (auto simp: generation_def split: sum.splits prod.splits)
  from track_best_Inr[OF tb] st' fs
  show "\<exists>fs. fitness_all cfg (population st) = Inr fs \<and>
            best_fitness st' =
              (if Max (set fs) > best_fitness st then Max (set fs) else best_fitness st) \<and>
            best_fitness_history st' = best_fitness_history st @ [best_fitness st']"
    by (metis run_state.select_convs(3,4) run_state.surjective run_state.update_convs(1))
next
  show "sorted (fst (optimize srt cfg g0))" by (rule optimize_history_sorted)
qed

theorem best_ever_history_witness:
  "(\<exists>st' g'. generation stable_argsort example_config (fst (initial_state example_config example_rng))
        (snd (initial_state example_config example_rng)) = Inr (st', g') \<and>
      best_fitness st' = 255 / 2 \<and> best_fitness_history st' = [255 / 2]) \<and>
   fst (optimize stable_argsort example_config example_rng) = [255 / 2, 255 / 2] \<and>
   sorted (fst (optimize stable_argsort example_config example_rng))"
proof -
  let ?st = "fst (initial_state example_config example_rng)"
  let ?g = "snd (initial_state example_config example_rng)"
  have e: "case generation stable_argsort example_config ?st ?g of
             Inl _ \<Rightarrow> False
           | Inr (st', g') \<Rightarrow> best_fitness st' = 255 / 2 \<and> best_fitness_history st' = [255 / 2]"
    by code_simp
  have h: "fst (optimize stable_argsort example_config example_rng) = [255 / 2, 255 / 2]"
    by code_simp
  from e have 1: "\<exists>st' g'. generation stable_argsort example_config ?st ?g = Inr (st', g') \<and>
      best_fitness st' = 255 / 2 \<and> best_fitness_history st' = [255 / 2]"
    by (auto split: sum.splits prod.splits)
  show ?thesis
    using 1 h best_ever_history[of stable_argsort example_config ?st ?g _ _ example_rng] by blast
qed

section \<open>The penalties in closed form\<close>

lemma fixed_inner_count:
  "fixed_inner f es s = s - 20 * real (length (filter (overlaps_fixed f) es))"
  by (induction es arbitrary: s) simp_all

lemma fixed_loop_count:
  "fixed_loop fs es s = s - 20 * real (\<Sum>f\<leftarrow>fs. length (filter (overlaps_fixed f) es))"
  by (induction fs arbitrary: s) (simp_all add: fixed_inner_count distrib_left)

lemma pair_inner_count:
  "pair_inner f fs s = s - 15 * real (length (filter (overlaps_furniture f) fs))"
  by (induction fs arbitrary: s) simp_all

lemma wall_loop_count:
  "wall_loop cfg fs s = s + 5 * real (length (filter (\<lambda>f. min_wall_dist cfg f < 1 / 10) fs))"
  by (induction fs arbitrary: s) simp_all

lemma overlaps_furniture_spec:
  "overlaps_furniture f1 f2 \<longleftrightarrow> spec_overlap (furniture_rect f1) (furniture_rect f2)"
  by (simp add: overlaps_furniture_def spec_overlap_def furniture_rect_def)

lemma overlaps_fixed_spec:
  "overlaps_fixed f e \<longleftrightarrow> spec_overlap (furniture_rect f) (element_rect e)"
  by (simp add: overlaps_fixed_def spec_overlap_def furniture_rect_def element_rect_def)

lemma finite_overlapping_pairs: "finite (overlapping_pairs ind)"
proof (rule finite_subset)
  show "overlapping_pairs ind \<subseteq> {..<length ind} \<times> {..<length ind}"
    by (auto simp: overlapping_pairs_def)
qed simp

lemma overlapping_pairs_Cons:
  "overlapping_pairs (f # fs) =
     (\<lambda>j. (0, Suc j)) ` {j. j < length fs \<and> overlaps_furniture f (fs ! j)} \<union>
     (\<lambda>(i, j). (Suc i, Suc j)) ` overlapping_pairs fs"
  (is "?L = ?A \<union> ?B")
proof (rule set_eqI)
  fix p :: "nat \<times> nat"
  obtain i j where p: "p = (i, j)" by (cases p)
  show "p \<in> ?L \<longleftrightarrow> p \<in> ?A \<union> ?B"
  proof (cases i)
    case 0
    show ?thesis
    proof (cases j)
      case 0
      with \<open>i = 0\<close> show ?thesis by (auto simp: p overlapping_pairs_def)
    next
      case (Suc j')
      with \<open>i = 0\<close> show ?thesis
        by (auto simp: p overlapping_pairs_def overlaps_furniture_spec)
    qed
  next
    case (Suc i')
    show ?thesis
    proof (cases j)
      case 0
      with Suc show ?thesis by (auto simp: p overlapping_pairs_def)
    next
      case (Suc j')
      with \<open>i = Suc i'\<close> show ?thesis
        by (auto simp: p overlapping_pairs_def image_iff)
    qed
  qed
qed

lemma card_overlapping_pairs_Cons:
  "card (overlapping_pairs (f # fs)) =
     length (filter (overlaps_furniture f) fs) + card (overlapping_pairs fs)"
proof -
  let ?A = "(\<lambda>j. (0, Suc j)) ` {j. j < length fs \<and> overlaps_furniture f (fs ! j)}"
  let ?B = "(\<lambda>(i, j). (Suc i, Suc j)) ` overlapping_pairs fs"
  have fa: "finite ?A" by simp
  have fb: "finite ?B" by (simp add: finite_overlapping_pairs)
  have dj: "?A \<inter> ?B = {}" by auto
  have ca: "card ?A = length (filter (overlaps_furniture f) fs)"
    by (subst card_image) (auto simp: inj_on_def length_filter_conv_card)
  have cb: "card ?B = card (overlapping_pairs fs)"
    by (rule card_image) (auto simp: inj_on_def)
  show ?thesis
    unfolding overlapping_pairs_Cons using card_Un_disjoint[OF fa fb dj] ca cb by simp
qed

lemma pair_loop_count:
  "pair_loop fs s = s - 15 * real (card (overlapping_pairs fs))"
proof (induction fs arbitrary: s)
  case Nil
  then show ?case by (simp add: overlapping_pairs_def)
next
  case (Cons f fs)
  then show ?case
    by (simp add: pair_inner_count card_overlapping_pairs_Cons distrib_left)
qed

lemma card_overlapping_fixed:
  "card (overlapping_fixed fs es) = (\<Sum>f\<leftarrow>fs. length (filter (overlaps_fixed f) es))"
proof -
  have eq: "overlapping_fixed fs es =
      (SIGMA i:{..<length fs}. {k. k < length es \<and> overlaps_fixed (fs ! i) (es ! k)})"
    by (auto simp: overlapping_fixed_def overlaps_fixed_spec)
  have "card (overlapping_fixed fs es) =
      (\<Sum>i<length fs. card {k. k < length es \<and> overlaps_fixed (fs ! i) (es ! k)})"
    unfolding eq by (subst card_SigmaI) auto
  also have "\<dots> = (\<Sum>i<length fs. length (filter (overlaps_fixed (fs ! i)) es))"
    by (simp add: length_filter_conv_card)
  also have "\<dots> = (\<Sum>f\<leftarrow>fs. length (filter (overlaps_fixed f) es))"
    by (simp add: sum_list_sum_nth atLeast0LessThan)
  finally show ?thesis .
qed

lemma placement_score_closed:
  "placement_score cfg ind =
     100 - 20 * real (card (overlapping_fixed ind (fixed_elements cfg)))
         - 15 * real (card (overlapping_pairs ind))
         + 5 * real (length (filter (\<lambda>f. min_wall_dist cfg f < 1 / 10) ind))"
  by (simp add: placement_score_def wall_loop_count pair_loop_count fixed_loop_count
      card_overlapping_fixed)

section \<open>The grid and the value of the fitness\<close>

lemma length_fill_row: "length (fill_row a b row) = length row"
  by (simp add: fill_row_def)

lemma map_length_grid_assign: "map length (grid_assign grid y1 y2 x1 x2) = map length grid"
proof -
  have "map length (grid_assign grid y1 y2 x1 x2) = map (length \<circ> snd) (enumerate 0 grid)"
    by (auto simp: grid_assign_def length_fill_row)
  also have "\<dots> = map length (map snd (enumerate 0 grid))" by (simp only: map_map)
  also have "\<dots> = map length grid" by (simp only: map_snd_enumerate)
  finally show ?thesis .
qed

lemma grid_cells_add_fixed: "grid_cells (add_fixed e grid) = grid_cells grid"
  by (simp add: grid_cells_def add_fixed_def Let_def map_length_grid_assign)

lemma grid_cells_add_furniture: "grid_cells (add_furniture f grid) = grid_cells grid"
  by (simp add: grid_cells_def add_furniture_def Let_def map_length_grid_assign)

lemma grid_cells_fold_fixed: "grid_cells (fold add_fixed es grid) = grid_cells grid"
  by (induction es arbitrary: grid) (simp_all add: grid_cells_add_fixed)

lemma grid_cells_fold_furniture: "grid_cells (fold add_furniture fs grid) = grid_cells grid"
  by (induction fs arbitrary: grid) (simp_all add: grid_cells_add_furniture)

lemma count_zero_le: "count_zero grid \<le> grid_cells grid"
  unfolding count_zero_def grid_cells_def
  by (induction grid) (simp_all add: add_mono)

lemma grid_cells_zeros: "np_zeros h w = Inr grid \<Longrightarrow> grid_cells grid = nat h * nat w"
  by (auto simp: np_zeros_def grid_cells_def sum_list_replicate split: if_splits)

lemma calculate_fitness_cases:
  assumes "calculate_fitness cfg ind = Inr s"
  shows "s = 0 \<or> (\<exists>w. 0 \<le> w \<and> w \<le> 1 \<and> s = max 0 (placement_score cfg ind + w * 30))"
proof -
  obtain grid0 where g: "np_zeros (py_int (room_width cfg * grid_size))
      (py_int (room_length cfg * grid_size)) = Inr grid0"
    using assms by (auto simp: calculate_fitness_def Let_def split: sum.splits)
  let ?grid = "fold add_furniture ind (fold add_fixed (fixed_elements cfg) grid0)"
  show ?thesis
  proof (cases "grid_cells ?grid = 0")
    case True
    then show ?thesis using assms g by (simp add: calculate_fitness_def Let_def)
  next
    case False
    let ?w = "real (count_zero ?grid) / real (grid_cells ?grid)"
    have w1: "?w \<le> 1" using count_zero_le[of ?grid] False by simp
    have w0: "0 \<le> ?w" by simp
    have "s = max 0 (placement_score cfg ind + ?w * 30)"
      using assms g False by (simp add: calculate_fitness_def Let_def)
    with w0 w1 show ?thesis by blast
  qed
qed

lemma calculate_fitness_nonneg: "calculate_fitness cfg ind = Inr s \<Longrightarrow> 0 \<le> s"
  using calculate_fitness_cases by fastforce

lemma calculate_fitness_error: "calculate_fitness cfg ind = Inl e \<Longrightarrow> e = ValueError"
  by (auto simp: calculate_fitness_def np_zeros_def Let_def split: sum.splits if_splits)

lemma calculate_fitness_returns:
  assumes "0 \<le> room_width cfg" and "0 \<le> room_length cfg"
  shows "\<exists>s. calculate_fitness cfg ind = Inr s"
proof -
  have "0 \<le> py_int (room_width cfg * grid_size)" "0 \<le> py_int (room_length cfg * grid_size)"
    using assms by (simp_all add: py_int_def grid_size_def)
  then show ?thesis
    by (simp add: calculate_fitness_def np_zeros_def Let_def)
qed

lemma calculate_fitness_positive_grid:
  assumes "0 < py_int (room_width cfg * grid_size)" and "0 < py_int (room_length cfg * grid_size)"
  shows "\<exists>w. 0 \<le> w \<and> w \<le> 1 \<and>
             calculate_fitness cfg ind = Inr (max 0 (placement_score cfg ind + w * 30))"
proof -
  let ?h = "py_int (room_width cfg * grid_size)"
  let ?w = "py_int (room_length cfg * grid_size)"
  let ?grid0 = "replicate (nat ?h) (replicate (nat ?w) (0::real))"
  have g: "np_zeros ?h ?w = Inr ?grid0"
    using assms by (simp add: np_zeros_def)
  let ?grid = "fold add_furniture ind (fold add_fixed (fixed_elements cfg) ?grid0)"
  have c: "grid_cells ?grid = nat ?h * nat ?w"
    by (simp add: grid_cells_fold_furniture grid_cells_fold_fixed grid_cells_zeros[OF g])
  have pos: "grid_cells ?grid \<noteq> 0" using assms c by simp
  let ?v = "real (count_zero ?grid) / real (grid_cells ?grid)"
  have v1: "?v \<le> 1" using count_zero_le[of ?grid] pos by simp
  have v0: "0 \<le> ?v" by simp
  have "calculate_fitness cfg ind = Inr (max 0 (placement_score cfg ind + ?v * 30))"
    using g pos by (simp add: calculate_fitness_def Let_def)
  with v0 v1 show ?thesis by blast
qed

lemma overlapping_pairs_wall_row: "overlapping_pairs (wall_row n) = {}"
  by (auto simp: overlapping_pairs_def wall_row_def spec_overlap_def furniture_rect_def
      Furniture_def)

lemma near_wall_wall_row:
  "filter (\<lambda>f. min_wall_dist (long_room n) f < 1 / 10) (wall_row n) = wall_row n"
  by (rule filter_True)
     (auto simp: wall_row_def min_wall_dist_def Furniture_def Let_def long_room_def
       GeneticLayoutOptimizer_def min_less_iff_disj)

lemma placement_score_wall_row:
  "placement_score (long_room n) (wall_row n) = 100 + 5 * real n"
proof -
  have "overlapping_fixed (wall_row n) (fixed_elements (long_room n)) = {}"
    by (simp add: overlapping_fixed_def long_room_def GeneticLayoutOptimizer_def)
  moreover have "length (wall_row n) = n"
    by (simp add: wall_row_def)
  ultimately show ?thesis
    by (simp only: placement_score_closed overlapping_pairs_wall_row near_wall_wall_row) simp
qed

lemma calculate_fitness_wall_row:
  assumes "0 < n"
  shows "\<exists>s. calculate_fitness (long_room n) (wall_row n) = Inr s \<and> 100 + 5 * real n \<le> s"
proof -
  have h: "py_int (room_width (long_room n) * grid_size) = 20"
    by (simp add: long_room_def GeneticLayoutOptimizer_def grid_size_def py_int_def)
  have "room_length (long_room n) * grid_size = real (n * 20)"
    by (simp add: long_room_def GeneticLayoutOptimizer_def grid_size_def)
  then have w: "py_int (room_length (long_room n) * grid_size) = int (n * 20)"
    by (simp only: py_int_def floor_of_nat) simp
  obtain v where v: "0 \<le> v" and
    f: "calculate_fitness (long_room n) (wall_row n) =
          Inr (max 0 (placement_score (long_room n) (wall_row n) + v * 30))"
    using calculate_fitness_positive_grid[of "long_room n" "wall_row n"] assms h w by auto
  show ?thesis
    unfolding f placement_score_wall_row using v by simp
qed

lemma calculate_fitness_unbounded:
  "\<exists>cfg ind s. calculate_fitness cfg ind = Inr s \<and> B < s"
proof -
  obtain n :: nat where n: "B < real n" using reals_Archimedean2 by blast
  obtain s where s: "calculate_fitness (long_room (Suc n)) (wall_row (Suc n)) = Inr s"
    and le: "100 + 5 * real (Suc n) \<le> s"
    using calculate_fitness_wall_row[of "Suc n"] by auto
  have "B < s" using n le by simp
  with s show ?thesis by blast
qed

text \<open>
  C3. Whenever \<^verbatim>\<open>calculate_fitness\<close> returns, the score is at least 0; it returns for every
  room whose two dimensions are not negative; and no number bounds the score from above.
\<close>

theorem fitness_nonnegative:
  "(calculate_fitness cfg ind = Inr s \<longrightarrow> 0 \<le> s) \<and>
   (0 \<le> room_width cfg \<and> 0 \<le> room_length cfg \<longrightarrow> (\<exists>v. calculate_fitness cfg ind = Inr v)) \<and>
   (\<exists>cfg' ind' s'. calculate_fitness cfg' ind' = Inr s' \<and> B < s')"
  using calculate_fitness_nonneg[of cfg ind s] calculate_fitness_returns[of cfg ind]
    calculate_fitness_unbounded[of B]
  by blast

theorem fitness_nonnegative_witness:
  "0 \<le> room_width door_config \<and> 0 \<le> room_length door_config \<and>
   calculate_fitness door_config crossing_items = Inr (3627 / 40) \<and> (0::real) \<le> 3627 / 40"
proof -
  have e: "calculate_fitness door_config crossing_items = Inr (3627 / 40)"
    by code_simp
  have r: "0 \<le> room_width door_config \<and> 0 \<le> room_length door_config"
    by (simp add: door_config_def GeneticLayoutOptimizer_def)
  show ?thesis
    using e r fitness_nonnegative[of door_config crossing_items "3627 / 40" 0] by blast
qed

text \<open>
  C5. The two tests of \<^verbatim>\<open>calculate_fitness\<close> are the strict test of the specification on
  the rectangles of the items and of the fixed elements, so that rectangles that only touch
  along an edge do not overlap; the score after the two penalty loops is 100 minus 20 for
  every overlapping (item, fixed element) pair minus 15 for every overlapping pair of items,
  with no cap; and the penalties reach the result unchanged unless the floor at 0 applies.
\<close>

theorem overlap_penalties:
  "(overlaps_fixed f e \<longleftrightarrow> spec_overlap (furniture_rect f) (element_rect e)) \<and>
   (overlaps_furniture f1 f2 \<longleftrightarrow> spec_overlap (furniture_rect f1) (furniture_rect f2)) \<and>
   \<not> spec_overlap (a\<lparr>xmax := xmin b\<rparr>) b \<and> \<not> spec_overlap (a\<lparr>xmin := xmax b\<rparr>) b \<and>
   \<not> spec_overlap (a\<lparr>ymax := ymin b\<rparr>) b \<and> \<not> spec_overlap (a\<lparr>ymin := ymax b\<rparr>) b \<and>
   pair_loop ind (fixed_loop ind (fixed_elements cfg) 100) =
     100 - 20 * real (card (overlapping_fixed ind (fixed_elements cfg)))
         - 15 * real (card (overlapping_pairs ind)) \<and>
   (calculate_fitness cfg ind = Inr s \<longrightarrow>
      s = 0 \<or>
      (\<exists>w. 0 \<le> w \<and> w \<le> 1 \<and>
         s = 100 - 20 * real (card (overlapping_fixed ind (fixed_elements cfg)))
               - 15 * real (card (overlapping_pairs ind))
               + 5 * real (length (filter (\<lambda>f. min_wall_dist cfg f < 1 / 10) ind))
               + w * 30))"
proof -
  have 1: "pair_loop ind (fixed_loop ind (fixed_elements cfg) 100) =
     100 - 20 * real (card (overlapping_fixed ind (fixed_elements cfg)))
         - 15 * real (card (overlapping_pairs ind))"
    by (simp add: pair_loop_count fixed_loop_count card_overlapping_fixed)
  have 2: "calculate_fitness cfg ind = Inr s \<longrightarrow>
      s = 0 \<or>
      (\<exists>w. 0 \<le> w \<and> w \<le> 1 \<and>
         s = 100 - 20 * real (card (overlapping_fixed ind (fixed_elements cfg)))
               - 15 * real (card (overlapping_pairs ind))
               + 5 * real (length (filter (\<lambda>f. min_wall_dist cfg f < 1 / 10) ind))
               + w * 30)"
  proof
    assume "calculate_fitness cfg ind = Inr s"
    from calculate_fitness_cases[OF this]
    have "s = 0 \<or> (\<exists>w. 0 \<le> w \<and> w \<le> 1 \<and> s = placement_score cfg ind + w * 30)"
      by (auto simp: max_def split: if_splits)
    then show "s = 0 \<or>
      (\<exists>w. 0 \<le> w \<and> w \<le> 1 \<and>
         s = 100 - 20 * real (card (overlapping_fixed ind (fixed_elements cfg)))
               - 15 * real (card (overlapping_pairs ind))
               + 5 * real (length (filter (\<lambda>f. min_wall_dist cfg f < 1 / 10) ind))
               + w * 30)"
      by (simp only: placement_score_closed)
  qed
  have 3: "\<not> spec_overlap (a\<lparr>xmax := xmin b\<rparr>) b \<and> \<not> spec_overlap (a\<lparr>xmin := xmax b\<rparr>) b \<and>
   \<not> spec_overlap (a\<lparr>ymax := ymin b\<rparr>) b \<and> \<not> spec_overlap (a\<lparr>ymin := ymax b\<rparr>) b"
    by (simp add: spec_overlap_def)
  show ?thesis
    using 1 2 3 overlaps_fixed_spec[of f e] overlaps_furniture_spec[of f1 f2] by blast
qed

theorem overlap_penalties_witness:
  "calculate_fitness door_config crossing_items = Inr (3627 / 40) \<and>
   pair_loop crossing_items (fixed_loop crossing_items (fixed_elements door_config) 100) = 65 \<and>
   20 * real (card (overlapping_fixed crossing_items (fixed_elements door_config))) +
     15 * real (card (overlapping_pairs crossing_items)) = 35"
proof -
  have e: "calculate_fitness door_config crossing_items = Inr (3627 / 40)"
    by code_simp
  have p: "pair_loop crossing_items (fixed_loop crossing_items (fixed_elements door_config) 100) = 65"
    by code_simp
  have "pair_loop crossing_items (fixed_loop crossing_items (fixed_elements door_config) 100) =
     100 - 20 * real (card (overlapping_fixed crossing_items (fixed_elements door_config)))
         - 15 * real (card (overlapping_pairs crossing_items))"
    using overlap_penalties[of _ _ _ _ _ _ crossing_items door_config] by blast
  with p e show ?thesis by simp
qed

section \<open>Sampling and parent selection\<close>

lemma randbelow_less: "0 < n \<Longrightarrow> fst (randbelow n g) < n"
proof -
  assume n: "0 < n"
  have "frac (g 0) * real n < 1 * real n"
    using n frac_lt_1[of "g 0"] by (intro mult_strict_right_mono) simp_all
  then have "\<lfloor>frac (g 0) * real n\<rfloor> < int n"
    by (simp add: floor_less_iff)
  moreover have "0 \<le> \<lfloor>frac (g 0) * real n\<rfloor>"
    using frac_ge_0[of "g 0"] by simp
  ultimately show ?thesis
    by (simp add: randbelow_def nat_less_iff)
qed

lemma pool_step:
  assumes d: "distinct pool" and j: "j < length pool"
  shows "distinct (butlast (pool[j := last pool])) \<and>
         set (butlast (pool[j := last pool])) = set pool - {pool ! j}"
proof -
  have ne: "pool \<noteq> []" using j by auto
  define bs where "bs = butlast pool"
  define l where "l = last pool"
  have pool: "pool = bs @ [l]" using ne by (simp add: bs_def l_def)
  have dbs: "distinct bs" and lbs: "l \<notin> set bs" using d pool by auto
  show ?thesis
  proof (cases "j = length pool - 1")
    case True
    then have "butlast (pool[j := last pool]) = bs"
      by (simp add: butlast_list_update bs_def)
    moreover have "pool ! j = l" using True pool by simp
    ultimately show ?thesis using dbs lbs pool by auto
  next
    case False
    then have jb: "j < length bs" using j pool by simp
    have b: "butlast (pool[j := last pool]) = bs[j := l]"
      using False by (simp add: butlast_list_update bs_def l_def)
    have pj: "pool ! j = bs ! j" using jb pool by (simp add: nth_append)
    have 1: "distinct (bs[j := l])"
      using dbs lbs by (intro distinct_list_update) auto
    have 2: "set (bs[j := l]) = insert l (set bs - {bs ! j})"
      using dbs jb by (rule set_update_distinct)
    have "bs ! j \<in> set bs" using jb by simp
    then have "bs ! j \<noteq> l" using lbs by auto
    then have 3: "insert l (set bs - {bs ! j}) = set pool - {pool ! j}"
      unfolding pj using pool by auto
    show ?thesis unfolding b using 1 2 3 by simp
  qed
qed

lemma sample_pool_props:
  "distinct pool \<Longrightarrow> k \<le> length pool \<Longrightarrow>
   length (fst (sample_pool pool k g)) = k \<and> distinct (fst (sample_pool pool k g)) \<and>
   set (fst (sample_pool pool k g)) \<subseteq> set pool"
proof (induction k arbitrary: pool g)
  case 0
  then show ?case by simp
next
  case (Suc k)
  obtain j g1 where r: "randbelow (length pool) g = (j, g1)" by (cases "randbelow (length pool) g")
  have "0 < length pool" using Suc.prems(2) by (cases pool) simp_all
  from randbelow_less[OF this, of g] have j: "j < length pool"
    by (simp add: r)
  let ?pool' = "butlast (pool[j := last pool])"
  from pool_step[OF Suc.prems(1) j]
  have d': "distinct ?pool'" and s': "set ?pool' = set pool - {pool ! j}" by auto
  have l': "k \<le> length ?pool'" using Suc.prems(2) by simp
  from Suc.IH[OF d' l', of g1]
  have ih: "length (fst (sample_pool ?pool' k g1)) = k"
    "distinct (fst (sample_pool ?pool' k g1))"
    "set (fst (sample_pool ?pool' k g1)) \<subseteq> set ?pool'" by auto
  have pj: "pool ! j \<in> set pool" using j by simp
  show ?case
    using ih s' pj r by (auto simp: Let_def split: prod.splits)
qed

lemma random_sample_Inr:
  assumes "random_sample n k g = Inr (idxs, g')"
  shows "length idxs = k \<and> distinct idxs \<and> (\<forall>i\<in>set idxs. i < n)"
proof -
  have kn: "k \<le> n" and e: "sample_pool [0..<n] k g = (idxs, g')"
    using assms by (auto simp: random_sample_def split: if_splits)
  from sample_pool_props[of "[0..<n]" k g] kn e show ?thesis by auto
qed

lemma random_sample_Inl: "random_sample n k g = Inl e \<longleftrightarrow> n < k \<and> e = ValueError"
  by (auto simp: random_sample_def)

lemma index_all_in_range:
  "\<forall>i\<in>set idxs. i < length xs \<Longrightarrow> index_all xs idxs = Inr (map ((!) xs) idxs)"
  by (induction idxs) (simp_all add: py_index_def)

lemma tournament_too_small:
  "length pop < 3 \<Longrightarrow> tournament pop fs g = Inl ValueError"
  by (simp add: tournament_def random_sample_def tournament_size_def)

lemma tournament_returns:
  assumes "3 \<le> length pop" and "length fs = length pop"
  shows "\<exists>winner g1. tournament pop fs g = Inr (winner, g1) \<and> winner \<in> set pop"
proof -
  obtain idxs g1 where s: "random_sample (length pop) tournament_size g = Inr (idxs, g1)"
    using assms(1)
    by (cases "sample_pool [0..<length pop] 3 g") (simp add: random_sample_def tournament_size_def)
  from random_sample_Inr[OF s]
  have li: "length idxs = 3" and ri: "\<forall>i\<in>set idxs. i < length pop"
    by (auto simp: tournament_size_def)
  have ia: "index_all fs idxs = Inr (map ((!) fs) idxs)"
    using ri assms(2) by (intro index_all_in_range) simp
  have "map ((!) fs) idxs \<noteq> []" using li by auto
  then obtain w where w: "np_argmax (map ((!) fs) idxs) = Inr w"
    using np_argmax_nonempty by blast
  from np_argmax_Inr[OF w] have wl: "w < length idxs" by simp
  then have pw: "py_index idxs w = Inr (idxs ! w)" by (simp add: py_index_def)
  have "idxs ! w < length pop" using ri wl by simp
  then have pp: "py_index pop (idxs ! w) = Inr (pop ! (idxs ! w))"
    and mem: "pop ! (idxs ! w) \<in> set pop"
    by (simp_all add: py_index_def)
  have "tournament pop fs g = Inr (pop ! (idxs ! w), g1)"
    by (simp add: tournament_def s ia w pw pp)
  with mem show ?thesis by blast
qed

lemma tournament_member:
  "tournament pop fs g = Inr (winner, g1) \<Longrightarrow> winner \<in> set pop"
  by (auto simp: tournament_def py_index_def split: sum.splits prod.splits if_splits)

lemma select_parents_member:
  "select_parents pop fs g = Inr ((p1, p2), g2) \<Longrightarrow> p1 \<in> set pop \<and> p2 \<in> set pop"
  by (auto simp: select_parents_def split: sum.splits prod.splits dest: tournament_member)

lemma select_parents_returns:
  assumes "3 \<le> length pop" and "length fs = length pop"
  shows "\<exists>p1 p2 g2. select_parents pop fs g = Inr ((p1, p2), g2) \<and> p1 \<in> set pop \<and> p2 \<in> set pop"
proof -
  obtain p1 g1 where 1: "tournament pop fs g = Inr (p1, g1)" and m1: "p1 \<in> set pop"
    using tournament_returns[OF assms] by blast
  obtain p2 g2 where 2: "tournament pop fs g1 = Inr (p2, g2)" and m2: "p2 \<in> set pop"
    using tournament_returns[OF assms] by blast
  have "select_parents pop fs g = Inr ((p1, p2), g2)"
    by (simp add: select_parents_def 1 2)
  with m1 m2 show ?thesis by blast
qed

lemma index_all_Inr:
  "index_all xs idxs = Inr vs \<Longrightarrow> vs = map ((!) xs) idxs \<and> (\<forall>i\<in>set idxs. i < length xs)"
  by (induction idxs arbitrary: vs) (auto simp: py_index_def split: sum.splits if_splits)

lemma tournament_sample:
  assumes "tournament pop fs g = Inr (winner, g1)"
  shows "\<exists>idxs w. random_sample (length pop) tournament_size g = Inr (idxs, g1) \<and>
           length idxs = 3 \<and> distinct idxs \<and> (\<forall>i\<in>set idxs. i < length pop) \<and>
           w < 3 \<and> winner = pop ! (idxs ! w) \<and>
           fs ! (idxs ! w) = Max ((\<lambda>i. fs ! i) ` set idxs)"
proof -
  from assms obtain idxs where s: "random_sample (length pop) tournament_size g = Inr (idxs, g1)"
    by (auto simp: tournament_def split: sum.splits prod.splits)
  from assms s obtain tf where ia: "index_all fs idxs = Inr tf"
    by (auto simp: tournament_def split: sum.splits)
  from assms s ia obtain w where w: "np_argmax tf = Inr w"
    by (auto simp: tournament_def split: sum.splits)
  from assms s ia w have win: "py_index idxs w = Inr (idxs ! w)"
    and pw: "py_index pop (idxs ! w) = Inr winner"
    by (auto simp: tournament_def py_index_def split: sum.splits if_splits)
  from random_sample_Inr[OF s]
  have li: "length idxs = 3" and di: "distinct idxs" and ri: "\<forall>i\<in>set idxs. i < length pop"
    by (auto simp: tournament_size_def)
  from index_all_Inr[OF ia] have tf: "tf = map ((!) fs) idxs" by simp
  from np_argmax_Inr[OF w] have wl: "w < length tf" and wm: "tf ! w = Max (set tf)" by auto
  have w3: "w < 3" using wl tf li by simp
  have "fs ! (idxs ! w) = Max ((\<lambda>i. fs ! i) ` set idxs)"
    using wm wl unfolding tf by simp
  moreover have "winner = pop ! (idxs ! w)"
    using pw by (auto simp: py_index_def split: if_splits)
  ultimately show ?thesis using s li di ri w3 by blast
qed

lemma select_parents_sample:
  assumes "select_parents pop fs g = Inr ((p1, p2), g2)"
  shows "\<exists>idxs1 ga idxs2 w1 w2.
           random_sample (length pop) tournament_size g = Inr (idxs1, ga) \<and>
           random_sample (length pop) tournament_size ga = Inr (idxs2, g2) \<and>
           length idxs1 = 3 \<and> distinct idxs1 \<and> (\<forall>i\<in>set idxs1. i < length pop) \<and>
           length idxs2 = 3 \<and> distinct idxs2 \<and> (\<forall>i\<in>set idxs2. i < length pop) \<and>
           w1 < 3 \<and> p1 = pop ! (idxs1 ! w1) \<and>
           fs ! (idxs1 ! w1) = Max ((\<lambda>i. fs ! i) ` set idxs1) \<and>
           w2 < 3 \<and> p2 = pop ! (idxs2 ! w2) \<and>
           fs ! (idxs2 ! w2) = Max ((\<lambda>i. fs ! i) ` set idxs2)"
proof -
  from assms obtain ga where t1: "tournament pop fs g = Inr (p1, ga)"
    and t2: "tournament pop fs ga = Inr (p2, g2)"
    by (auto simp: select_parents_def split: sum.splits prod.splits)
  from tournament_sample[OF t1] tournament_sample[OF t2] show ?thesis by blast
qed

text \<open>
  C10. A tournament samples three distinct indices of the population, the size 3 being a
  constant of \<^verbatim>\<open>select_parents\<close> that no parameter reaches; with fewer than three
  individuals the sampling raises ValueError and no parents are returned, and with three or
  more (and one score for each) a pair of members of the population is returned. Each
  parent returned is the member at an index of the fittest score among the three distinct
  indices that one call of the sampling drew, the second call continuing after the first.
\<close>

theorem select_parents_needs_three:
  "(length pop < 3 \<longrightarrow> select_parents pop fs g = Inl ValueError) \<and>
   (random_sample (length pop) tournament_size g = Inr (idxs, g1) \<longrightarrow>
      length idxs = 3 \<and> distinct idxs \<and> (\<forall>i\<in>set idxs. i < length pop)) \<and>
   (3 \<le> length pop \<and> length fs = length pop \<longrightarrow>
      (\<exists>p1 p2 g2. select_parents pop fs g = Inr ((p1, p2), g2) \<and>
         p1 \<in> set pop \<and> p2 \<in> set pop)) \<and>
   (select_parents pop fs g = Inr ((q1, q2), gq) \<longrightarrow>
      (\<exists>idxs1 ga idxs2 w1 w2.
         random_sample (length pop) tournament_size g = Inr (idxs1, ga) \<and>
         random_sample (length pop) tournament_size ga = Inr (idxs2, gq) \<and>
         length idxs1 = 3 \<and> distinct idxs1 \<and> (\<forall>i\<in>set idxs1. i < length pop) \<and>
         length idxs2 = 3 \<and> distinct idxs2 \<and> (\<forall>i\<in>set idxs2. i < length pop) \<and>
         w1 < 3 \<and> q1 = pop ! (idxs1 ! w1) \<and>
         fs ! (idxs1 ! w1) = Max ((\<lambda>i. fs ! i) ` set idxs1) \<and>
         w2 < 3 \<and> q2 = pop ! (idxs2 ! w2) \<and>
         fs ! (idxs2 ! w2) = Max ((\<lambda>i. fs ! i) ` set idxs2)))"
proof (intro conjI impI)
  assume "select_parents pop fs g = Inr ((q1, q2), gq)"
  then show "\<exists>idxs1 ga idxs2 w1 w2.
         random_sample (length pop) tournament_size g = Inr (idxs1, ga) \<and>
         random_sample (length pop) tournament_size ga = Inr (idxs2, gq) \<and>
         length idxs1 = 3 \<and> distinct idxs1 \<and> (\<forall>i\<in>set idxs1. i < length pop) \<and>
         length idxs2 = 3 \<and> distinct idxs2 \<and> (\<forall>i\<in>set idxs2. i < length pop) \<and>
         w1 < 3 \<and> q1 = pop ! (idxs1 ! w1) \<and>
         fs ! (idxs1 ! w1) = Max ((\<lambda>i. fs ! i) ` set idxs1) \<and>
         w2 < 3 \<and> q2 = pop ! (idxs2 ! w2) \<and>
         fs ! (idxs2 ! w2) = Max ((\<lambda>i. fs ! i) ` set idxs2)"
    by (rule select_parents_sample)
next
  assume "length pop < 3"
  then show "select_parents pop fs g = Inl ValueError"
    by (simp add: select_parents_def tournament_too_small)
next
  assume a: "random_sample (length pop) tournament_size g = Inr (idxs, g1)"
  from random_sample_Inr[OF a] show "length idxs = 3" "distinct idxs" "\<forall>i\<in>set idxs. i < length pop"
    by (simp_all add: tournament_size_def)
next
  assume "3 \<le> length pop \<and> length fs = length pop"
  then show "\<exists>p1 p2 g2. select_parents pop fs g = Inr ((p1, p2), g2) \<and>
         p1 \<in> set pop \<and> p2 \<in> set pop"
    using select_parents_returns by blast
qed

theorem select_parents_needs_three_witness:
  "length (take 2 tied_population) < 3 \<and>
   select_parents (take 2 tied_population) [255 / 2, 255 / 2] example_rng = Inl ValueError \<and>
   (\<exists>g1. random_sample (length tied_population) tournament_size example_rng =
      Inr ([0, 2, 1], g1)) \<and>
   3 \<le> length tied_population \<and>
   (\<exists>g2. select_parents tied_population [255 / 2, 255 / 2, 255 / 2] example_rng =
      Inr ((tied_population ! 0, tied_population ! 1), g2))"
proof -
  let ?fs = "[255 / 2, 255 / 2, 255 / 2 :: real]"
  have l2: "length (take 2 tied_population) < 3" and l3: "3 \<le> length tied_population"
    by (simp_all add: tied_population_def)
  have s: "case random_sample (length tied_population) tournament_size example_rng of
             Inl _ \<Rightarrow> False | Inr (idxs, _) \<Rightarrow> idxs = [0, 2, 1]"
    by code_simp
  then have s': "\<exists>g1. random_sample (length tied_population) tournament_size example_rng =
      Inr ([0, 2, 1], g1)"
    by (auto split: sum.splits prod.splits)
  have l3': "length ?fs = length tied_population"
    by (simp add: tied_population_def)
  have small: "select_parents (take 2 tied_population) [255 / 2, 255 / 2] example_rng =
      Inl ValueError"
    by (rule select_parents_needs_three
          [of "take 2 tied_population" "[255 / 2, 255 / 2]" example_rng,
           THEN conjunct1, THEN mp, OF l2])
  have "\<exists>p1 p2 g2. select_parents tied_population ?fs example_rng = Inr ((p1, p2), g2) \<and>
      p1 \<in> set tied_population \<and> p2 \<in> set tied_population"
    by (rule select_parents_needs_three
          [of tied_population ?fs example_rng,
           THEN conjunct2, THEN conjunct2, THEN conjunct1, THEN mp, OF conjI[OF l3 l3']])
  then obtain p1 p2 g2 where
    r: "select_parents tied_population ?fs example_rng = Inr ((p1, p2), g2)" by blast
  have "case select_parents tied_population ?fs example_rng of
          Inl _ \<Rightarrow> False
        | Inr ((a, b), _) \<Rightarrow> a = tied_population ! 0 \<and> b = tied_population ! 1"
    by code_simp
  with r have "p1 = tied_population ! 0 \<and> p2 = tied_population ! 1" by simp
  with r have big: "\<exists>g2. select_parents tied_population ?fs example_rng =
      Inr ((tied_population ! 0, tied_population ! 1), g2)"
    by blast
  from l2 small s' l3 big show ?thesis by blast
qed

section \<open>Runs of the generational loop\<close>

lemma fitness_all_Inr:
  "fitness_all cfg pop = Inr fs \<Longrightarrow> list_all2 (\<lambda>ind v. calculate_fitness cfg ind = Inr v) pop fs"
  by (induction pop arbitrary: fs) (auto split: sum.splits)

lemma run_generations_add:
  "run_generations srt cfg (k + m) st g =
     (case run_generations srt cfg k st g of
        Inl eh \<Rightarrow> Inl eh
      | Inr (st1, g1) \<Rightarrow> run_generations srt cfg m st1 g1)"
proof (induction k arbitrary: st g)
  case 0
  then show ?case by simp
next
  case (Suc k)
  show ?case
  proof (cases "generation srt cfg st g")
    case (Inl eh)
    then show ?thesis by simp
  next
    case (Inr sg)
    obtain s1 g1 where "sg = (s1, g1)" by (cases sg)
    with Inr Suc.IH[of s1 g1] show ?thesis by simp
  qed
qed

lemma run_generations_Suc:
  "run_generations srt cfg (Suc k) st g =
     (case run_generations srt cfg k st g of
        Inl eh \<Rightarrow> Inl eh
      | Inr (st1, g1) \<Rightarrow> generation srt cfg st1 g1)"
proof -
  have a: "run_generations srt cfg (k + 1) st g =
     (case run_generations srt cfg k st g of
        Inl eh \<Rightarrow> Inl eh
      | Inr (st1, g1) \<Rightarrow> run_generations srt cfg 1 st1 g1)"
    by (rule run_generations_add)
  have b: "run_generations srt cfg 1 s1 g1 = generation srt cfg s1 g1" for s1 g1
    by (simp split: sum.splits prod.splits)
  show ?thesis by (simp only: Suc_eq_plus1 a b)
qed

lemma generation_all_zero:
  assumes g: "generation srt cfg st g = Inr (st', g')"
    and z: "\<forall>ind\<in>set (population st). calculate_fitness cfg ind = Inr 0"
    and b: "best_individual st = None" "best_fitness st = 0"
  shows "best_individual st' = None \<and> best_fitness st' = 0"
proof -
  from g obtain fs st1 where fs: "fitness_all cfg (population st) = Inr fs"
    and tb: "track_best st fs = Inr st1"
    and st': "st' = st1\<lparr>population := population st'\<rparr>"
    by (auto simp: generation_def split: sum.splits prod.splits)
  have z': "v = 0" if "v \<in> set fs" for v
  proof -
    from that obtain i where i: "i < length fs" "fs ! i = v" by (auto simp: in_set_conv_nth)
    from fitness_all_Inr[OF fs] i
    have l: "i < length (population st)"
      and c: "calculate_fitness cfg (population st ! i) = Inr v"
      by (auto simp: list_all2_conv_all_nth)
    from l have "population st ! i \<in> set (population st)" by simp
    with z c show ?thesis by auto
  qed
  obtain i where "np_argmax fs = Inr i"
    using tb by (auto simp: track_best_def split: sum.splits)
  from np_argmax_Inr[OF this] have "Max (set fs) \<in> set fs"
    by (metis nth_mem)
  then have "Max (set fs) = 0" by (rule z')
  with track_best_Inr[OF tb] b have "best_individual st1 = None \<and> best_fitness st1 = 0"
    by simp
  then show ?thesis by (subst st', subst (2) st') simp
qed

lemma run_generations_all_zero:
  "run_generations srt cfg n st g = Inr (st', g') \<Longrightarrow>
   \<forall>k<n. \<forall>sk gk. run_generations srt cfg k st g = Inr (sk, gk) \<longrightarrow>
      (\<forall>ind\<in>set (population sk). calculate_fitness cfg ind = Inr 0) \<Longrightarrow>
   best_individual st = None \<Longrightarrow> best_fitness st = 0 \<Longrightarrow>
   best_individual st' = None \<and> best_fitness st' = 0"
proof (induction n arbitrary: st' g')
  case 0
  then show ?case by simp
next
  case (Suc n)
  from Suc.prems(1) obtain sn gn where rn: "run_generations srt cfg n st g = Inr (sn, gn)"
    and gn: "generation srt cfg sn gn = Inr (st', g')"
    unfolding run_generations_Suc by (auto split: sum.splits prod.splits)
  have sm: "\<forall>k<n. \<forall>sk gk. run_generations srt cfg k st g = Inr (sk, gk) \<longrightarrow>
      (\<forall>ind\<in>set (population sk). calculate_fitness cfg ind = Inr 0)"
    using Suc.prems(2) less_Suc_eq by blast
  have "best_individual sn = None \<and> best_fitness sn = 0"
    by (rule Suc.IH[OF rn sm Suc.prems(3) Suc.prems(4)])
  moreover have "\<forall>ind\<in>set (population sn). calculate_fitness cfg ind = Inr 0"
    using Suc.prems(2) rn by blast
  ultimately show ?case using generation_all_zero[OF gn] by blast
qed

lemma calculate_fitness_no_cells:
  assumes "py_int (room_width cfg * grid_size) = 0" and "0 \<le> py_int (room_length cfg * grid_size)"
  shows "calculate_fitness cfg ind = Inr 0"
proof -
  let ?w = "py_int (room_length cfg * grid_size)"
  have g: "np_zeros 0 ?w = Inr []"
    using assms(2) by (simp add: np_zeros_def)
  have "grid_cells [] = 0"
    by (simp add: grid_cells_def)
  then have "grid_cells (fold add_furniture ind (fold add_fixed (fixed_elements cfg) [])) = 0"
    by (simp only: grid_cells_fold_furniture grid_cells_fold_fixed)
  then show ?thesis
    by (simp add: calculate_fitness_def assms(1) g Let_def)
qed

text \<open>
  C9. When every individual of every generation has fitness 0, the best-ever pair is never
  replaced, and a run that returns gives no arrangement (None) and the best fitness 0.
\<close>

theorem all_zero_returns_none:
  assumes "initial_state cfg g = (st0, g1)"
    and "\<forall>k<nat (generations cfg). \<forall>sk gk.
           run_generations srt cfg k st0 g1 = Inr (sk, gk) \<longrightarrow>
           (\<forall>ind\<in>set (population sk). calculate_fitness cfg ind = Inr 0)"
    and "snd (optimize srt cfg g) = Inr (b, f)"
  shows "b = None \<and> f = 0"
proof -
  from assms(3) obtain st' g' where
    r: "run_generations srt cfg (nat (generations cfg)) st0 g1 = Inr (st', g')"
    and b: "b = best_individual st'" and f: "f = best_fitness st'"
    by (auto simp: optimize_def assms(1) split: sum.splits prod.splits)
  have i: "best_individual st0 = None" "best_fitness st0 = 0"
    using assms(1) by (auto simp: initial_state_def split: prod.splits)
  from run_generations_all_zero[OF r assms(2) i] b f show ?thesis by simp
qed

theorem all_zero_returns_none_witness:
  "(\<forall>ind. calculate_fitness narrow_config ind = Inr 0) \<and>
   0 < generations narrow_config \<and>
   snd (optimize stable_argsort narrow_config example_rng) = Inr (None, 0)"
proof -
  have z: "calculate_fitness narrow_config ind = Inr 0" for ind
    by (rule calculate_fitness_no_cells)
       (simp_all add: narrow_config_def GeneticLayoutOptimizer_def grid_size_def py_int_def)
  have "case snd (optimize stable_argsort narrow_config example_rng) of Inl _ \<Rightarrow> False | Inr _ \<Rightarrow> True"
    by code_simp
  then obtain b f where r: "snd (optimize stable_argsort narrow_config example_rng) = Inr (b, f)"
    by (auto split: sum.splits)
  obtain st0 g1 where i: "initial_state narrow_config example_rng = (st0, g1)"
    by (cases "initial_state narrow_config example_rng")
  have "b = None \<and> f = 0"
    by (rule all_zero_returns_none[OF i _ r]) (simp add: z)
  moreover have "0 < generations narrow_config"
    by (simp add: narrow_config_def GeneticLayoutOptimizer_def)
  ultimately show ?thesis using z r by simp
qed

section \<open>Invariants of a generation\<close>

lemma track_best_replaced:
  assumes "track_best st fs = Inr st'" and "Max (set fs) > best_fitness st"
  shows "\<exists>i. i < length fs \<and> i < length (population st) \<and> fs ! i = Max (set fs) \<and>
             best_individual st' = Some (population st ! i)"
proof -
  obtain i where i: "np_argmax fs = Inr i"
    using assms(1) by (auto simp: track_best_def split: sum.splits)
  from np_argmax_Inr[OF i] have il: "i < length fs" and im: "fs ! i = Max (set fs)" by auto
  have "i < length (population st) \<and> best_individual st' = Some (population st ! i)"
    using assms i il im
    by (auto simp: track_best_def py_index_def deepcopy_def split: sum.splits if_splits)
  with il im show ?thesis by blast
qed

lemma init_individual_empty: "init_individual cfg [] g = ([], g)"
  by simp

lemma init_population_empty:
  "furniture_list cfg = [] \<Longrightarrow> \<forall>ind\<in>set (fst (init_population cfg n g)). ind = []"
proof (induction n arbitrary: g)
  case 0
  then show ?case by simp
next
  case (Suc n)
  obtain rest g2 where r: "init_population cfg n g = (rest, g2)"
    by (cases "init_population cfg n g")
  from Suc.IH[OF Suc.prems, of g] r have "\<forall>ind\<in>set rest. ind = []" by simp
  then show ?case using Suc.prems r by (simp add: Let_def)
qed

lemma elite_loop_member:
  "elite_loop pop idxs js = Inr es \<Longrightarrow> set es \<subseteq> set pop"
  by (induction js arbitrary: es)
     (auto simp: py_index_def deepcopy_def split: sum.splits if_splits)

lemma make_child_empty:
  assumes "\<forall>ind\<in>set pop. ind = []" and "make_child cfg pop fs g = Inr (child, g1)"
  shows "child = []"
proof -
  from assms(2) obtain p1 p2 ga c gb where sp: "select_parents pop fs g = Inr ((p1, p2), ga)"
    and cr: "crossover p1 p2 ga = Inr (c, gb)" and mu: "mutate cfg c gb = (child, g1)"
    by (auto simp: make_child_def split: sum.splits prod.splits)
  from select_parents_member[OF sp] assms(1) have "p1 = []" by simp
  with cr have "c = []" by simp
  with mu show ?thesis by simp
qed

lemma breed_all:
  "breed cfg pop fs new g = Inr (np, g') \<Longrightarrow>
   (\<And>ga child gb. make_child cfg pop fs ga = Inr (child, gb) \<Longrightarrow> P child) \<Longrightarrow>
   \<forall>c\<in>set new. P c \<Longrightarrow> \<forall>c\<in>set np. P c"
proof (induction cfg pop fs new g rule: breed.induct)
  case (1 cfg pop fs new g)
  show ?case
  proof (cases "int (length new) < population_size cfg")
    case True
    with "1.prems"(1) obtain child g1 where mc: "make_child cfg pop fs g = Inr (child, g1)"
      and br: "breed cfg pop fs (new @ [child]) g1 = Inr (np, g')"
      by (subst (asm) breed.simps) (auto split: sum.splits prod.splits)
    have "\<forall>c\<in>set (new @ [child]). P c"
      using "1.prems"(3) "1.prems"(2)[OF mc] by simp
    from "1.IH"[OF True mc refl br "1.prems"(2) this] show ?thesis .
  next
    case False
    with "1.prems" show ?thesis by (subst (asm) breed.simps) simp
  qed
qed

lemma generation_population:
  assumes "generation srt cfg st g = Inr (st', g')"
    and "\<forall>ind\<in>set (population st). P ind"
    and "\<And>ga child gb. make_child cfg (population st) fs ga = Inr (child, gb) \<Longrightarrow> P child"
    and "fitness_all cfg (population st) = Inr fs"
  shows "\<forall>ind\<in>set (population st'). P ind"
proof -
  from assms(1,4) obtain elites where el: "elitism srt cfg (population st) fs = Inr elites"
    and br: "breed cfg (population st) fs elites g = Inr (population st', g')"
    by (auto simp: generation_def split: sum.splits prod.splits)
  have "set elites \<subseteq> set (population st)"
    using el by (auto simp: elitism_def dest: elite_loop_member)
  then have "\<forall>c\<in>set elites. P c" using assms(2) by blast
  from breed_all[OF br assms(3) this] show ?thesis .
qed

lemma generation_empty_catalog:
  assumes g: "generation srt cfg st g = Inr (st', g')"
    and e: "\<forall>ind\<in>set (population st). ind = []"
  shows "\<exists>v. calculate_fitness cfg [] = Inr v \<and>
             (\<forall>ind\<in>set (population st'). ind = []) \<and>
             best_fitness_history st' = best_fitness_history st @ [best_fitness st'] \<and>
             best_fitness st' = (if v > best_fitness st then v else best_fitness st) \<and>
             best_individual st' = (if v > best_fitness st then Some [] else best_individual st)"
proof -
  from g obtain fs st1 where fs: "fitness_all cfg (population st) = Inr fs"
    and tb: "track_best st fs = Inr st1"
    and st': "\<exists>np. st' = st1\<lparr>population := np\<rparr>"
    by (auto simp: generation_def split: sum.splits prod.splits)
  then obtain np where np: "st' = st1\<lparr>population := np\<rparr>" by blast
  have bh: "best_fitness st' = best_fitness st1" "best_individual st' = best_individual st1"
    "best_fitness_history st' = best_fitness_history st1"
    by (simp_all add: np)
  obtain i where i: "np_argmax fs = Inr i"
    using tb by (auto simp: track_best_def split: sum.splits)
  from np_argmax_Inr[OF i] have il: "i < length fs" and im: "fs ! i = Max (set fs)" by auto
  from fitness_all_Inr[OF fs] il
  have ip: "i < length (population st)"
    and c: "calculate_fitness cfg (population st ! i) = Inr (fs ! i)"
    by (auto simp: list_all2_conv_all_nth)
  have "population st ! i = []" using e ip by simp
  with c im have v: "calculate_fitness cfg [] = Inr (Max (set fs))" by simp
  have pe: "\<forall>ind\<in>set (population st'). ind = []"
    by (rule generation_population[OF g e _ fs]) (rule make_child_empty[OF e])
  have bi: "best_individual st1 =
      (if Max (set fs) > best_fitness st then Some [] else best_individual st)"
  proof (cases "Max (set fs) > best_fitness st")
    case True
    from track_best_replaced[OF tb True] e show ?thesis using True by auto
  next
    case False
    with track_best_Inr[OF tb] show ?thesis by simp
  qed
  from track_best_Inr[OF tb] v pe bi show ?thesis
    unfolding bh by blast
qed

lemma run_generations_empty_catalog:
  "run_generations srt cfg n st g = Inr (st', g') \<Longrightarrow>
   calculate_fitness cfg [] = Inr v \<Longrightarrow>
   \<forall>ind\<in>set (population st). ind = [] \<Longrightarrow>
   best_fitness_history st = replicate k v \<Longrightarrow>
   best_fitness st = (if k = 0 then 0 else v) \<Longrightarrow>
   best_individual st = (if k = 0 \<or> \<not> 0 < v then None else Some []) \<Longrightarrow>
   best_fitness_history st' = replicate (k + n) v \<and>
   best_fitness st' = (if k + n = 0 then 0 else v) \<and>
   best_individual st' = (if k + n = 0 \<or> \<not> 0 < v then None else Some [])"
proof (induction n arbitrary: st g k)
  case 0
  then show ?case by simp
next
  case (Suc n)
  from Suc.prems(1) obtain s1 g1 where g1: "generation srt cfg st g = Inr (s1, g1)"
    and r: "run_generations srt cfg n s1 g1 = Inr (st', g')"
    by (auto split: sum.splits prod.splits)
  have v0: "0 \<le> v" using calculate_fitness_nonneg[OF Suc.prems(2)] .
  from generation_empty_catalog[OF g1 Suc.prems(3)] Suc.prems(2)
  have pe: "\<forall>ind\<in>set (population s1). ind = []"
    and h: "best_fitness_history s1 = best_fitness_history st @ [best_fitness s1]"
    and bf: "best_fitness s1 = (if v > best_fitness st then v else best_fitness st)"
    and bi: "best_individual s1 = (if v > best_fitness st then Some [] else best_individual st)"
    by auto
  have bf': "best_fitness s1 = v"
    using bf Suc.prems(5) v0 by (auto split: if_splits)
  have h': "best_fitness_history s1 = replicate (Suc k) v"
    using h bf' Suc.prems(4) by (simp add: replicate_append_same)
  have bi': "best_individual s1 = (if Suc k = 0 \<or> \<not> 0 < v then None else Some [])"
    using bi Suc.prems(5,6) v0 by (auto split: if_splits)
  have bf'': "best_fitness s1 = (if Suc k = 0 then 0 else v)" using bf' by simp
  from Suc.IH[OF r Suc.prems(2) pe h' bf'' bi'] show ?case by simp
qed

text \<open>
  C8. With an empty catalog \<^verbatim>\<open>optimize\<close> runs the generational loop as for any other
  catalog. A run of at least one generation that returns gives the fitness of the empty
  arrangement, which the history holds once for every generation, and the empty arrangement
  when that fitness is positive (None when it is 0).
\<close>

theorem empty_catalog_runs_loop:
  assumes "furniture_list cfg = []" and "0 < generations cfg"
    and "optimize srt cfg g = (h, Inr (b, f))"
  shows "calculate_fitness cfg [] = Inr f \<and> h = replicate (nat (generations cfg)) f \<and>
         b = (if 0 < f then Some [] else None)"
proof -
  obtain st0 g1 where i: "initial_state cfg g = (st0, g1)" by (cases "initial_state cfg g")
  then have p0: "population st0 = fst (initialize_population cfg g)"
    and h0: "best_fitness_history st0 = []"
    and b0: "best_fitness st0 = 0" "best_individual st0 = None"
    by (auto simp: initial_state_def split: prod.splits)
  have e0: "\<forall>ind\<in>set (population st0). ind = []"
    unfolding p0 initialize_population_def by (rule init_population_empty[OF assms(1)])
  from assms(3) obtain st' g' where
    r: "run_generations srt cfg (nat (generations cfg)) st0 g1 = Inr (st', g')"
    and h: "h = best_fitness_history st'"
    and b: "b = best_individual st'" and f: "f = best_fitness st'"
    by (auto simp: optimize_def i split: sum.splits prod.splits)
  obtain m where m: "nat (generations cfg) = Suc m"
    using assms(2) by (cases "nat (generations cfg)") auto
  from r m obtain s1 ga where "generation srt cfg st0 g1 = Inr (s1, ga)"
    by (auto split: sum.splits prod.splits)
  from generation_empty_catalog[OF this e0]
  obtain v where v: "calculate_fitness cfg [] = Inr v" by blast
  from run_generations_empty_catalog[OF r v e0, of 0] h0 b0 m
  have "best_fitness_history st' = replicate (nat (generations cfg)) v"
    "best_fitness st' = v"
    "best_individual st' = (if \<not> 0 < v then None else Some [])"
    by simp_all
  with v h b f show ?thesis by auto
qed

theorem empty_catalog_runs_loop_witness:
  "furniture_list empty_catalog_config = [] \<and> 0 < generations empty_catalog_config \<and>
   optimize stable_argsort empty_catalog_config example_rng = ([130, 130], Inr (Some [], 130)) \<and>
   calculate_fitness empty_catalog_config [] = Inr 130"
proof -
  have 1: "furniture_list empty_catalog_config = []" "0 < generations empty_catalog_config"
    by (simp_all add: empty_catalog_config_def GeneticLayoutOptimizer_def)
  have 2: "optimize stable_argsort empty_catalog_config example_rng = ([130, 130], Inr (Some [], 130))"
    by code_simp
  from empty_catalog_runs_loop[OF 1 2] 1 2 show ?thesis by simp
qed

text \<open>
  The claim as the specification states it fails: with an empty catalog the loop runs (the
  history has an entry for each of the two generations) and the fitness returned is 130,
  not the sentinel 0 that the best-ever fitness starts from. All individuals are the empty
  arrangement, so the order argsort gives to their equal scores makes no difference.
\<close>

theorem empty_catalog_counterexample:
  "furniture_list empty_catalog_config = [] \<and>
   fst (optimize stable_argsort empty_catalog_config example_rng) = [130, 130] \<and>
   snd (optimize stable_argsort empty_catalog_config example_rng) = Inr (Some [], 130) \<and>
   best_fitness (fst (initial_state empty_catalog_config example_rng)) = 0"
  by code_simp

section \<open>Placement of an item that exceeds the room\<close>

lemma random_random_range: "0 \<le> fst (random_random g) \<and> fst (random_random g) < 1"
  by (simp add: random_random_def frac_lt_1)

lemma random_uniform_negative_range:
  assumes "b < 0"
  shows "b < fst (random_uniform 0 b g) \<and> fst (random_uniform 0 b g) \<le> 0"
proof -
  let ?r = "fst (random_random g)"
  have r: "0 \<le> ?r" "?r < 1" using random_random_range[of g] by auto
  have v: "fst (random_uniform 0 b g) = b * ?r"
    by (simp add: random_uniform_def Let_def split: prod.splits)
  have "b * ?r \<le> 0" using assms r(1) by (simp add: mult_nonpos_nonneg)
  moreover have "b * 1 < b * ?r" using assms r(2) by (rule mult_strict_left_mono_neg[rotated]) 
  ultimately show ?thesis unfolding v by simp
qed

lemma init_item_position:
  assumes "init_item cfg furn g = (item, g')"
  shows "(room_length cfg < f_length item \<longrightarrow>
            room_length cfg - f_length item < f_x item \<and> f_x item \<le> 0) \<and>
         (room_width cfg < f_width item \<longrightarrow>
            room_width cfg - f_width item < f_y item \<and> f_y item \<le> 0)"
proof -
  obtain r g1 where r: "random_random g = (r, g1)" by (cases "random_random g")
  define fc where "fc = (if r > 1 / 2 then rotate_f furn else furn)"
  obtain px g2 where px: "random_uniform 0 (room_length cfg - f_length fc) g1 = (px, g2)"
    by (cases "random_uniform 0 (room_length cfg - f_length fc) g1")
  obtain py g3 where py: "random_uniform 0 (room_width cfg - f_width fc) g2 = (py, g3)"
    by (cases "random_uniform 0 (room_width cfg - f_width fc) g2")
  have item: "item = set_position fc px py"
    using assms r px py by (simp add: init_item_def deepcopy_def fc_def Let_def)
  have d: "f_length item = f_length fc" "f_width item = f_width fc"
    "f_x item = px" "f_y item = py"
    by (simp_all add: item set_position_def)
  have x: "room_length cfg < f_length fc \<longrightarrow>
      room_length cfg - f_length fc < px \<and> px \<le> 0"
    using random_uniform_negative_range[of "room_length cfg - f_length fc" g1] px by simp
  have y: "room_width cfg < f_width fc \<longrightarrow>
      room_width cfg - f_width fc < py \<and> py \<le> 0"
    using random_uniform_negative_range[of "room_width cfg - f_width fc" g2] py by simp
  show ?thesis unfolding d using x y by blast
qed

lemma init_individual_items:
  "init_individual cfg fs g = (ind, g') \<Longrightarrow>
   length ind = length fs \<and>
   (\<forall>item\<in>set ind.
      (room_length cfg < f_length item \<longrightarrow>
         room_length cfg - f_length item < f_x item \<and> f_x item \<le> 0) \<and>
      (room_width cfg < f_width item \<longrightarrow>
         room_width cfg - f_width item < f_y item \<and> f_y item \<le> 0))"
proof (induction fs arbitrary: g ind g')
  case Nil
  then show ?case by simp
next
  case (Cons furn fs)
  obtain item g1 where i: "init_item cfg furn g = (item, g1)" by (cases "init_item cfg furn g")
  obtain rest g2 where r: "init_individual cfg fs g1 = (rest, g2)"
    by (cases "init_individual cfg fs g1")
  have ind: "ind = item # rest" using Cons.prems i r by (simp add: Let_def)
  from Cons.IH[OF r] init_item_position[OF i] show ?case
    unfolding ind by simp
qed

lemma init_population_items:
  "init_population cfg n g = (pop, g') \<Longrightarrow>
   length pop = n \<and>
   (\<forall>ind\<in>set pop. length ind = length (furniture_list cfg) \<and>
      (\<forall>item\<in>set ind.
         (room_length cfg < f_length item \<longrightarrow>
            room_length cfg - f_length item < f_x item \<and> f_x item \<le> 0) \<and>
         (room_width cfg < f_width item \<longrightarrow>
            room_width cfg - f_width item < f_y item \<and> f_y item \<le> 0)))"
proof (induction n arbitrary: g pop g')
  case 0
  then show ?case by simp
next
  case (Suc n)
  obtain ind g1 where i: "init_individual cfg (furniture_list cfg) g = (ind, g1)"
    by (cases "init_individual cfg (furniture_list cfg) g")
  obtain rest g2 where r: "init_population cfg n g1 = (rest, g2)"
    by (cases "init_population cfg n g1")
  have pop: "pop = ind # rest" using Suc.prems i r by (simp add: Let_def)
  from Suc.IH[OF r] init_individual_items[OF i] show ?case
    unfolding pop by simp
qed

lemma mutate_item_position:
  assumes "mutate_item cfg furn g = (item, g')" and "room_length cfg < f_length furn"
  shows "f_x item = f_x furn \<or>
         (room_length cfg - f_length furn < f_x item \<and> f_x item \<le> 0)"
proof -
  obtain r1 g1 where r1: "random_random g = (r1, g1)" by (cases "random_random g")
  show ?thesis
  proof (cases "r1 < mutation_rate cfg")
    case False
    then have "f_x item = f_x furn"
      using assms(1) r1
      by (auto simp: mutate_item_def rotate_f_def Let_def split: prod.splits if_splits)
    then show ?thesis by simp
  next
    case True
    obtain px ga where px: "random_uniform 0 (room_length cfg - f_length furn) g1 = (px, ga)"
      by (cases "random_uniform 0 (room_length cfg - f_length furn) g1")
    have "f_x item = px"
      using assms(1) r1 True px
      by (auto simp: mutate_item_def rotate_f_def set_position_def Let_def
          split: prod.splits if_splits)
    moreover have "room_length cfg - f_length furn < px \<and> px \<le> 0"
      using random_uniform_negative_range[of "room_length cfg - f_length furn" g1] px assms(2)
      by simp
    ultimately show ?thesis by simp
  qed
qed

lemma mutate_item_position_y:
  assumes "mutate_item cfg furn g = (item, g')" and "room_width cfg < f_width furn"
  shows "f_y item = f_y furn \<or>
         (room_width cfg - f_width furn < f_y item \<and> f_y item \<le> 0)"
proof -
  obtain r1 g1 where r1: "random_random g = (r1, g1)" by (cases "random_random g")
  show ?thesis
  proof (cases "r1 < mutation_rate cfg")
    case False
    then have "f_y item = f_y furn"
      using assms(1) r1
      by (auto simp: mutate_item_def rotate_f_def Let_def split: prod.splits if_splits)
    then show ?thesis by simp
  next
    case True
    obtain px ga where px: "random_uniform 0 (room_length cfg - f_length furn) g1 = (px, ga)"
      by (cases "random_uniform 0 (room_length cfg - f_length furn) g1")
    obtain py gb where py: "random_uniform 0 (room_width cfg - f_width furn) ga = (py, gb)"
      by (cases "random_uniform 0 (room_width cfg - f_width furn) ga")
    have "f_y item = py"
      using assms(1) r1 True px py
      by (auto simp: mutate_item_def rotate_f_def set_position_def Let_def
          split: prod.splits if_splits)
    moreover have "room_width cfg - f_width furn < py \<and> py \<le> 0"
      using random_uniform_negative_range[of "room_width cfg - f_width furn" ga] py assms(2)
      by simp
    ultimately show ?thesis by simp
  qed
qed

text \<open>
  C7. A configuration with an item larger than the room is not rejected. The constructor
  stores its arguments as they are, and \<^verbatim>\<open>initialize_population\<close> completes with the whole
  population: an item longer than the room gets its x from the range between the negative
  difference and 0, an item wider than the room its y likewise; a mutation leaves the
  position as it is or draws x and y from the same two ranges.
\<close>

theorem oversize_item_is_placed:
  "furniture_list (GeneticLayoutOptimizer rl rw fl fe ps gens mr ec) = fl \<and>
   length (fst (initialize_population cfg g)) = nat (population_size cfg) \<and>
   (\<forall>ind\<in>set (fst (initialize_population cfg g)).
      length ind = length (furniture_list cfg) \<and>
      (\<forall>item\<in>set ind.
         (room_length cfg < f_length item \<longrightarrow>
            room_length cfg - f_length item < f_x item \<and> f_x item \<le> 0) \<and>
         (room_width cfg < f_width item \<longrightarrow>
            room_width cfg - f_width item < f_y item \<and> f_y item \<le> 0))) \<and>
   (mutate_item cfg furn ga = (moved, gb) \<and> room_length cfg < f_length furn \<longrightarrow>
      f_x moved = f_x furn \<or>
      (room_length cfg - f_length furn < f_x moved \<and> f_x moved \<le> 0)) \<and>
   (mutate_item cfg furn ga = (moved, gb) \<and> room_width cfg < f_width furn \<longrightarrow>
      f_y moved = f_y furn \<or>
      (room_width cfg - f_width furn < f_y moved \<and> f_y moved \<le> 0))"
proof -
  obtain pop g' where p: "init_population cfg (nat (population_size cfg)) g = (pop, g')"
    by (cases "init_population cfg (nat (population_size cfg)) g")
  from init_population_items[OF p] p mutate_item_position[of cfg furn ga moved gb]
    mutate_item_position_y[of cfg furn ga moved gb]
  show ?thesis
    by (simp add: initialize_population_def GeneticLayoutOptimizer_def)
qed

theorem oversize_item_is_placed_witness:
  "fst (initialize_population oversize_config half_rng) =
     replicate 3 [Furniture ''wardrobe'' (1 / 5) (1 / 5) True (- (1 / 20)) (- (1 / 20)) 0] \<and>
   room_length oversize_config < 1 / 5 \<and>
   room_length oversize_config - 1 / 5 < - (1 / 20) \<and> - (1 / 20) \<le> (0::real) \<and>
   room_width oversize_config < 1 / 5 \<and>
   fst (mutate_item oversize_config (Furniture ''wardrobe'' (1 / 5) (1 / 5) True 0 0 0) tenth_rng) =
     Furniture ''wardrobe'' (1 / 5) (1 / 5) True (- (1 / 100)) (- (1 / 100)) 90 \<and>
   room_width oversize_config - 1 / 5 < - (1 / 100) \<and> - (1 / 100) \<le> (0::real)"
proof -
  let ?w = "Furniture ''wardrobe'' (1 / 5) (1 / 5) True 0 0 0"
  let ?m = "Furniture ''wardrobe'' (1 / 5) (1 / 5) True (- (1 / 100)) (- (1 / 100)) 90"
  have e: "fst (initialize_population oversize_config half_rng) =
     replicate 3 [Furniture ''wardrobe'' (1 / 5) (1 / 5) True (- (1 / 20)) (- (1 / 20)) 0]"
    by code_simp
  have r: "room_length oversize_config < 1 / 5" "room_width oversize_config < 1 / 5"
    by (simp_all add: oversize_config_def GeneticLayoutOptimizer_def)
  have m: "fst (mutate_item oversize_config ?w tenth_rng) = ?m"
    by code_simp
  obtain gb where mg: "mutate_item oversize_config ?w tenth_rng = (?m, gb)"
    using m by (cases "mutate_item oversize_config ?w tenth_rng") simp
  note inst = oversize_item_is_placed[of _ _ _ _ _ _ _ _ oversize_config half_rng ?w tenth_rng ?m gb]
  have "\<forall>ind\<in>set (fst (initialize_population oversize_config half_rng)).
      \<forall>item\<in>set ind. room_length oversize_config < f_length item \<longrightarrow>
        room_length oversize_config - f_length item < f_x item \<and> f_x item \<le> 0"
    using inst by blast
  then have x: "room_length oversize_config - 1 / 5 < - (1 / 20) \<and> - (1 / 20) \<le> (0::real)"
    unfolding e using r by (simp add: Furniture_def)
  have "f_y ?m = f_y ?w \<or> (room_width oversize_config - f_width ?w < f_y ?m \<and> f_y ?m \<le> 0)"
    using inst mg r(2) by (simp add: Furniture_def)
  then have y: "room_width oversize_config - 1 / 5 < - (1 / 100) \<and> - (1 / 100) \<le> (0::real)"
    by (simp add: Furniture_def)
  from e r m x y show ?thesis by blast
qed

text \<open>
  The claim as the specification states it fails: for a room of 0.1 by 0.1 and an item of
  0.2 by 0.2 \<^verbatim>\<open>optimize\<close> raises nothing and returns the item at (-0.05, -0.05). The
  three individuals of the only generation are equal, so the order argsort gives to their
  equal scores makes no difference.
\<close>

theorem oversize_counterexample:
  "room_length oversize_config = 1 / 10 \<and> room_width oversize_config = 1 / 10 \<and>
   furniture_list oversize_config = [Furniture ''wardrobe'' (1 / 5) (1 / 5) True 0 0 0] \<and>
   optimize stable_argsort oversize_config half_rng =
     ([255 / 2],
      Inr (Some [Furniture ''wardrobe'' (1 / 5) (1 / 5) True (- (1 / 20)) (- (1 / 20)) 0],
           255 / 2))"
  by code_simp

section \<open>Elitism\<close>

lemma deepcopy_refs_props:
  assumes "deepcopy_refs s memo as = (s', bs)"
    and "base \<le> next_free s"
    and "\<forall>a\<in>set as. a < base"
    and "\<forall>(a, b)\<in>set memo. a < base \<and> base \<le> b \<and> b < next_free s \<and> cells s b = cells s a"
  shows "next_free s \<le> next_free s' \<and>
         (\<forall>a<next_free s. cells s' a = cells s a) \<and>
         length bs = length as \<and>
         map (cells s') bs = map (cells s) as \<and>
         (\<forall>b\<in>set bs. base \<le> b \<and> b < next_free s')"
  using assms
proof (induction as arbitrary: s memo s' bs)
  case Nil
  then show ?case by simp
next
  case (Cons a as)
  show ?case
  proof (cases "map_of memo a")
    case (Some b)
    obtain s1 rest where r: "deepcopy_refs s memo as = (s1, rest)"
      by (cases "deepcopy_refs s memo as")
    have res: "s' = s1" "bs = b # rest"
      using Cons.prems(1) Some r by simp_all
    have mem: "(a, b) \<in> set memo" using Some by (rule map_of_SomeD)
    then have b: "a < base" "base \<le> b" "b < next_free s" "cells s b = cells s a"
      using Cons.prems(4) by auto
    have ih: "next_free s \<le> next_free s1 \<and>
         (\<forall>a<next_free s. cells s1 a = cells s a) \<and>
         length rest = length as \<and>
         map (cells s1) rest = map (cells s) as \<and>
         (\<forall>b\<in>set rest. base \<le> b \<and> b < next_free s1)"
      by (rule Cons.IH[OF r Cons.prems(2)]) (use Cons.prems in auto)
    have "a < next_free s" using b(1) Cons.prems(2) by simp
    with ih b show ?thesis unfolding res by auto
  next
    case None
    define s1 where "s1 = fst (alloc s (cells s a))"
    define b where "b = next_free s"
    have al: "alloc s (cells s a) = (s1, b)" by (simp add: s1_def b_def alloc_def)
    have n1: "next_free s1 = Suc (next_free s)"
      and c1: "\<And>x. cells s1 x = (if x = next_free s then cells s a else cells s x)"
      by (simp_all add: s1_def alloc_def)
    obtain s2 rest where r: "deepcopy_refs s1 ((a, b) # memo) as = (s2, rest)"
      by (cases "deepcopy_refs s1 ((a, b) # memo) as")
    have res: "s' = s2" "bs = b # rest"
      using Cons.prems(1) None al r by simp_all
    have ab: "a < base" using Cons.prems(3) by simp
    have old: "\<And>x. x < next_free s \<Longrightarrow> cells s1 x = cells s x" by (simp add: c1)
    have inv: "\<forall>(x, y)\<in>set ((a, b) # memo).
        x < base \<and> base \<le> y \<and> y < next_free s1 \<and> cells s1 y = cells s1 x"
    proof -
      have "x < base \<and> base \<le> y \<and> y < next_free s1 \<and> cells s1 y = cells s1 x"
        if "(x, y) \<in> set memo" for x y
      proof -
        from that Cons.prems(4)
        have m: "x < base" "base \<le> y" "y < next_free s" "cells s y = cells s x" by auto
        have "x < next_free s" using m(1) Cons.prems(2) by simp
        with m show ?thesis by (simp add: n1 old)
      qed
      moreover have "a < base \<and> base \<le> b \<and> b < next_free s1 \<and> cells s1 b = cells s1 a"
        using ab Cons.prems(2) by (simp add: b_def n1 c1)
      ultimately show ?thesis by auto
    qed
    have ih: "next_free s1 \<le> next_free s2 \<and>
         (\<forall>a<next_free s1. cells s2 a = cells s1 a) \<and>
         length rest = length as \<and>
         map (cells s2) rest = map (cells s1) as \<and>
         (\<forall>b\<in>set rest. base \<le> b \<and> b < next_free s2)"
    proof (rule Cons.IH[OF r _ _ inv])
      show "base \<le> next_free s1" using Cons.prems(2) by (simp add: n1)
      show "\<forall>a\<in>set as. a < base" using Cons.prems(3) by simp
    qed
    have as_old: "map (cells s1) as = map (cells s) as"
      using Cons.prems(2,3) by (auto simp: old)
    have "cells s2 b = cells s a"
      using ih by (simp add: b_def n1 c1)
    moreover have "\<forall>x<next_free s. cells s2 x = cells s x"
      using ih by (simp add: n1 old)
    moreover have "base \<le> b \<and> b < next_free s2"
      using ih Cons.prems(2) by (simp add: b_def n1)
    ultimately show ?thesis
      unfolding res using ih as_old by (simp add: n1)
  qed
qed

lemma deepcopy_individual_props:
  assumes "deepcopy_individual s refs = (s', copy)" and "\<forall>a\<in>set refs. a < next_free s"
  shows "next_free s \<le> next_free s' \<and>
         (\<forall>a<next_free s. cells s' a = cells s a) \<and>
         read_individual s' copy = read_individual s refs \<and>
         (\<forall>b\<in>set copy. next_free s \<le> b \<and> b < next_free s')"
  using deepcopy_refs_props[of s "[]" refs s' copy "next_free s"] assms
  by (simp add: deepcopy_individual_def read_individual_def)

lemma insort_key_order:
  fixes f :: "nat \<Rightarrow> real"
  assumes "sorted_wrt (\<lambda>a b. f a < f b \<or> (f a = f b \<and> a < b)) ys"
    and "\<forall>y\<in>set ys. x < y"
  shows "sorted_wrt (\<lambda>a b. f a < f b \<or> (f a = f b \<and> a < b)) (insort_key f x ys)"
  using assms
proof (induction ys)
  case Nil
  then show ?case by simp
next
  case (Cons y ys)
  show ?case
  proof (cases "f x \<le> f y")
    case True
    have "f x < f z \<or> (f x = f z \<and> x < z)" if "z \<in> set (y # ys)" for z
    proof -
      have "f y \<le> f z" using that Cons.prems(1) by auto
      moreover have "x < z" using that Cons.prems(2) by auto
      ultimately show ?thesis using True by auto
    qed
    then show ?thesis using True Cons.prems(1) by simp
  next
    case False
    have ih: "sorted_wrt (\<lambda>a b. f a < f b \<or> (f a = f b \<and> a < b)) (insort_key f x ys)"
      using Cons by simp
    have "f y < f z \<or> (f y = f z \<and> y < z)" if "z \<in> set (insort_key f x ys)" for z
      using that False Cons.prems(1) by (auto simp: set_insort_key)
    then show ?thesis using False ih by simp
  qed
qed

lemma sort_key_order:
  fixes f :: "nat \<Rightarrow> real"
  shows "sorted_wrt (<) xs \<Longrightarrow>
         sorted_wrt (\<lambda>a b. f a < f b \<or> (f a = f b \<and> a < b)) (sort_key f xs)"
proof (induction xs)
  case Nil
  then show ?case by simp
next
  case (Cons x xs)
  have "sorted_wrt (\<lambda>a b. f a < f b \<or> (f a = f b \<and> a < b)) (sort_key f xs)"
    using Cons by simp
  moreover have "\<forall>y\<in>set (sort_key f xs). x < y" using Cons.prems by simp
  ultimately show ?case by (simp add: insort_key_order)
qed

lemma stable_sorted_indices_order:
  "sorted_wrt (\<lambda>a b. fs ! a > fs ! b \<or> (fs ! a = fs ! b \<and> a > b))
     (sorted_indices stable_argsort fs)"
proof -
  have "sorted_wrt (<) [0..<length fs]" by (simp add: sorted_wrt_upt)
  from sort_key_order[OF this, of "\<lambda>i. fs ! i"]
  have "sorted_wrt (\<lambda>a b. fs ! a < fs ! b \<or> (fs ! a = fs ! b \<and> a < b)) (stable_argsort fs)"
    by (simp add: stable_argsort_def)
  then have "sorted_wrt (\<lambda>b a. fs ! a > fs ! b \<or> (fs ! a = fs ! b \<and> a > b))
      (stable_argsort fs)"
    by (rule sorted_wrt_mono_rel[rotated]) auto
  then show ?thesis
    by (simp add: sorted_indices_def sorted_wrt_rev)
qed

lemma is_argsort_stable: "is_argsort xs (stable_argsort xs)"
  by (auto simp: is_argsort_def stable_argsort_def)

lemma sorted_indices_descending:
  assumes "is_argsort fs (srt fs)"
  shows "sorted_wrt (\<lambda>a b. fs ! a \<ge> fs ! b) (sorted_indices srt fs)"
proof -
  have "sorted_wrt (\<le>) (map (\<lambda>i. fs ! i) (srt fs))"
    using assms by (simp add: is_argsort_def)
  then have "sorted_wrt (\<lambda>a b. fs ! a \<le> fs ! b) (srt fs)"
    by (simp add: sorted_wrt_map)
  then show ?thesis
    by (simp add: sorted_indices_def sorted_wrt_rev)
qed

lemma sorted_indices_perm:
  assumes "is_argsort fs (srt fs)"
  shows "set (sorted_indices srt fs) = {..<length fs} \<and> distinct (sorted_indices srt fs) \<and>
         length (sorted_indices srt fs) = length fs"
  using assms by (simp add: sorted_indices_def is_argsort_def)

lemma elite_loop_Inr:
  "elite_loop pop idxs js = Inr es \<Longrightarrow>
   es = map (\<lambda>j. pop ! (idxs ! j)) js \<and> (\<forall>j\<in>set js. j < length idxs \<and> idxs ! j < length pop)"
  by (induction js arbitrary: es)
     (auto simp: py_index_def deepcopy_def split: sum.splits if_splits)

lemma elitism_Inr:
  assumes "elitism srt cfg pop fs = Inr es" and "length fs = length pop"
    and "is_argsort fs (srt fs)"
  shows "length es = nat (elitism_count cfg) \<and> nat (elitism_count cfg) \<le> length pop \<and>
         (\<forall>j<length es. es ! j = pop ! (sorted_indices srt fs ! j))"
proof -
  let ?k = "nat (elitism_count cfg)"
  from elite_loop_Inr[OF assms(1)[unfolded elitism_def]]
  have es: "es = map (\<lambda>j. pop ! (sorted_indices srt fs ! j)) [0..<?k]"
    and r: "\<forall>j\<in>set [0..<?k]. j < length (sorted_indices srt fs)"
    by auto
  have "?k \<le> length pop"
  proof (rule ccontr)
    assume "\<not> ?k \<le> length pop"
    then have "length pop \<in> set [0..<?k]" by simp
    with r have "length pop < length (sorted_indices srt fs)" by blast
    then show False using sorted_indices_perm[where fs=fs and srt=srt, OF assms(3)] assms(2) by simp
  qed
  then show ?thesis unfolding es by simp
qed

lemma breed_extends:
  "breed cfg pop fs new g = Inr (np, g') \<Longrightarrow> take (length new) np = new"
proof (induction cfg pop fs new g rule: breed.induct)
  case (1 cfg pop fs new g)
  show ?case
  proof (cases "int (length new) < population_size cfg")
    case True
    with "1.prems"(1) obtain child g1 where mc: "make_child cfg pop fs g = Inr (child, g1)"
      and br: "breed cfg pop fs (new @ [child]) g1 = Inr (np, g')"
      by (subst (asm) breed.simps) (auto split: sum.splits prod.splits)
    from "1.IH"[OF True mc refl br] have "take (Suc (length new)) np = new @ [child]" by simp
    then have "take (length new) (take (Suc (length new)) np) = take (length new) (new @ [child])"
      by simp
    then show ?thesis by (simp add: min_def)
  next
    case False
    with "1.prems" show ?thesis by (subst (asm) breed.simps) simp
  qed
qed

lemma generation_keeps_elites:
  assumes "generation srt cfg st g = Inr (st', g')"
  shows "\<exists>fs es. fitness_all cfg (population st) = Inr fs \<and>
            elitism srt cfg (population st) fs = Inr es \<and>
            take (length es) (population st') = es"
proof -
  from assms obtain fs es where fs: "fitness_all cfg (population st) = Inr fs"
    and el: "elitism srt cfg (population st) fs = Inr es"
    and br: "breed cfg (population st) fs es g = Inr (population st', g')"
    by (auto simp: generation_def split: sum.splits prod.splits)
  from breed_extends[OF br] fs el show ?thesis by blast
qed

lemma read_individual_old:
  assumes "\<forall>a<n. cells s' a = cells s a" and "\<forall>a\<in>set refs. a < n"
  shows "read_individual s' refs = read_individual s refs"
  using assms by (simp add: read_individual_def)

lemma elite_loop_refs_props:
  assumes "elite_loop_refs s pop idxs js = Inr (s', elites)"
    and "\<forall>ind\<in>set pop. \<forall>a\<in>set ind. a < next_free s"
  shows "next_free s \<le> next_free s' \<and>
         (\<forall>a<next_free s. cells s' a = cells s a) \<and>
         (\<forall>c\<in>set elites. \<forall>a\<in>set c. next_free s \<le> a \<and> a < next_free s') \<and>
         sorted_wrt (\<lambda>c d. \<forall>a\<in>set c. \<forall>b\<in>set d. a < b) elites \<and>
         elite_loop (map (read_individual s) pop) idxs js =
           Inr (map (read_individual s') elites)"
  using assms
proof (induction js arbitrary: s s' elites)
  case Nil
  then show ?case by simp
next
  case (Cons i js)
  from Cons.prems(1) obtain idx where ix: "py_index idxs i = Inr idx"
    by (auto split: sum.splits)
  from Cons.prems(1) ix obtain ind where ip: "py_index pop idx = Inr ind"
    by (auto split: sum.splits)
  obtain s1 copy where dc: "deepcopy_individual s ind = (s1, copy)"
    by (cases "deepcopy_individual s ind")
  from Cons.prems(1) ix ip dc obtain rest where
    r: "elite_loop_refs s1 pop idxs js = Inr (s', rest)" and el: "elites = copy # rest"
    by (auto split: sum.splits prod.splits)
  have il: "idx < length pop" and ind: "ind = pop ! idx"
    using ip by (auto simp: py_index_def split: if_splits)
  then have mem: "ind \<in> set pop" by simp
  then have wi: "\<forall>a\<in>set ind. a < next_free s" using Cons.prems(2) by blast
  from deepcopy_individual_props[OF dc wi]
  have n1: "next_free s \<le> next_free s1"
    and o1: "\<forall>a<next_free s. cells s1 a = cells s a"
    and rd: "read_individual s1 copy = read_individual s ind"
    and fr: "\<forall>b\<in>set copy. next_free s \<le> b \<and> b < next_free s1"
    by auto
  have w1: "\<forall>ind\<in>set pop. \<forall>a\<in>set ind. a < next_free s1"
    using Cons.prems(2) n1 by fastforce
  from Cons.IH[OF r w1]
  have n2: "next_free s1 \<le> next_free s'"
    and o2: "\<forall>a<next_free s1. cells s' a = cells s1 a"
    and f2: "\<forall>c\<in>set rest. \<forall>a\<in>set c. next_free s1 \<le> a \<and> a < next_free s'"
    and so: "sorted_wrt (\<lambda>c d. \<forall>a\<in>set c. \<forall>b\<in>set d. a < b) rest"
    and ev: "elite_loop (map (read_individual s1) pop) idxs js =
               Inr (map (read_individual s') rest)"
    by auto
  have same: "map (read_individual s1) pop = map (read_individual s) pop"
  proof (rule map_cong[OF refl])
    fix x assume "x \<in> set pop"
    then have "\<forall>a\<in>set x. a < next_free s" using Cons.prems(2) by blast
    with o1 show "read_individual s1 x = read_individual s x"
      by (rule read_individual_old)
  qed
  have "\<forall>a\<in>set copy. a < next_free s1" using fr by simp
  with o2 have "read_individual s' copy = read_individual s1 copy"
    by (rule read_individual_old)
  with rd have rc: "read_individual s' copy = read_individual s ind" by simp
  have 1: "next_free s \<le> next_free s'" using n1 n2 by simp
  have 2: "\<forall>a<next_free s. cells s' a = cells s a"
    using o1 o2 n1 by fastforce
  have 3: "\<forall>c\<in>set elites. \<forall>a\<in>set c. next_free s \<le> a \<and> a < next_free s'"
    unfolding el using fr f2 n1 n2 by fastforce
  have 4: "sorted_wrt (\<lambda>c d. \<forall>a\<in>set c. \<forall>b\<in>set d. a < b) elites"
    unfolding el using so fr f2 by fastforce
  have px: "py_index (map (read_individual s) pop) idx = Inr (read_individual s ind)"
    using il ind by (simp add: py_index_def)
  have 5: "elite_loop (map (read_individual s) pop) idxs (i # js) =
           Inr (map (read_individual s') elites)"
    using ev by (simp add: ix px same el rc deepcopy_def)
  from 1 2 3 4 5 show ?case by blast
qed

lemma map_read_tied: "map (read_individual tied_store) tied_refs = tied_population"
  by code_simp

text \<open>
  C6. Elitism takes the individuals at the first \<^verbatim>\<open>elitism_count\<close> places of the argsort
  of the fitness scores read backwards: along that order the fitness never increases, so no
  individual left out is fitter than one taken, and the order among equal fitness is the
  one argsort happens to give. Each of them is inserted at the front of the next population
  as a deep copy: equal in value, made of new objects that no individual of the old
  population and no other copy refers to, the old objects being left as they were.
\<close>

theorem elitism_selects_and_copies:
  assumes "elitism_refs srt cfg s pop fs = Inr (s', elites)"
    and "length fs = length pop"
    and "\<forall>ind\<in>set pop. \<forall>a\<in>set ind. a < next_free s"
    and "is_argsort fs (srt fs)"
  shows "length elites = nat (elitism_count cfg) \<and> nat (elitism_count cfg) \<le> length pop \<and>
    (\<forall>j<length elites.
       read_individual s' (elites ! j) = read_individual s (pop ! (sorted_indices srt fs ! j))) \<and>
    sorted_wrt (\<lambda>a b. fs ! a \<ge> fs ! b) (sorted_indices srt fs) \<and>
    set (sorted_indices srt fs) = {..<length fs} \<and> distinct (sorted_indices srt fs) \<and>
    (\<forall>j<length elites. \<forall>m<length fs. length elites \<le> m \<longrightarrow>
       fs ! (sorted_indices srt fs ! m) \<le> fs ! (sorted_indices srt fs ! j)) \<and>
    elitism srt cfg (map (read_individual s) pop) fs = Inr (map (read_individual s') elites) \<and>
    (\<forall>ind\<in>set pop. \<forall>c\<in>set elites. set ind \<inter> set c = {}) \<and>
    sorted_wrt (\<lambda>c d. \<forall>a\<in>set c. \<forall>b\<in>set d. a < b) elites \<and>
    (\<forall>a<next_free s. cells s' a = cells s a) \<and>
    (generation srt cfg st g = Inr (st1, g1) \<longrightarrow>
       (\<exists>scores es. fitness_all cfg (population st) = Inr scores \<and>
          elitism srt cfg (population st) scores = Inr es \<and>
          take (length es) (population st1) = es))"
proof -
  let ?k = "nat (elitism_count cfg)"
  let ?vpop = "map (read_individual s) pop"
  let ?si = "sorted_indices srt fs"
  from elite_loop_refs_props[OF assms(1)[unfolded elitism_refs_def] assms(3)]
  have old: "\<forall>a<next_free s. cells s' a = cells s a"
    and fresh: "\<forall>c\<in>set elites. \<forall>a\<in>set c. next_free s \<le> a \<and> a < next_free s'"
    and apart: "sorted_wrt (\<lambda>c d. \<forall>a\<in>set c. \<forall>b\<in>set d. a < b) elites"
    and ev: "elitism srt cfg ?vpop fs = Inr (map (read_individual s') elites)"
    by (auto simp: elitism_def)
  have len: "length fs = length ?vpop" using assms(2) by simp
  from elitism_Inr[OF ev len assms(4)]
  have l: "length elites = ?k" and k: "?k \<le> length pop"
    and v: "\<forall>j<length elites. map (read_individual s') elites ! j = ?vpop ! (?si ! j)"
    by auto
  note perm = sorted_indices_perm[where fs=fs and srt=srt, OF assms(4)]
  note desc = sorted_indices_descending[where fs=fs and srt=srt, OF assms(4)]
  have sel: "read_individual s' (elites ! j) = read_individual s (pop ! (?si ! j))"
    if "j < length elites" for j
  proof -
    have "j < length ?si" using that l k assms(2) perm by simp
    then have "?si ! j \<in> set ?si" by simp
    then have "?si ! j < length pop" using perm assms(2) by auto
    with v that show ?thesis by simp
  qed
  have top: "fs ! (?si ! m) \<le> fs ! (?si ! j)"
    if "j < length elites" "m < length fs" "length elites \<le> m" for j m
  proof -
    have "j < m" using that by simp
    moreover have "m < length ?si" using that perm by simp
    ultimately show ?thesis using desc by (simp add: sorted_wrt_iff_nth_less)
  qed
  have disj: "\<forall>ind\<in>set pop. \<forall>c\<in>set elites. set ind \<inter> set c = {}"
    using assms(3) fresh by fastforce
  have gen: "generation srt cfg st g = Inr (st1, g1) \<longrightarrow>
       (\<exists>scores es. fitness_all cfg (population st) = Inr scores \<and>
          elitism srt cfg (population st) scores = Inr es \<and>
          take (length es) (population st1) = es)"
    using generation_keeps_elites by blast
  show ?thesis
    using l k sel desc perm top ev disj apart old gen by blast
qed

theorem elitism_selects_and_copies_witness:
  "(\<exists>s'. elitism_refs stable_argsort example_config tied_store tied_refs
            [255 / 2, 255 / 2, 255 / 2] = Inr (s', [[3]]) \<and>
          read_individual s' [3] = tied_population ! 2) \<and>
   length [255 / 2, 255 / 2, 255 / 2 :: real] = length tied_refs \<and>
   is_argsort [255 / 2, 255 / 2, 255 / 2] (stable_argsort [255 / 2, 255 / 2, 255 / 2]) \<and>
   fitness_all example_config tied_population = Inr [255 / 2, 255 / 2, 255 / 2] \<and>
   elitism stable_argsort example_config tied_population [255 / 2, 255 / 2, 255 / 2] =
     Inr [tied_population ! 2]"
proof -
  let ?fs = "[255 / 2, 255 / 2, 255 / 2 :: real]"
  have e: "case elitism_refs stable_argsort example_config tied_store tied_refs ?fs of
             Inl _ \<Rightarrow> False
           | Inr (s', elites) \<Rightarrow> elites = [[3]] \<and> read_individual s' [3] = tied_population ! 2"
    by code_simp
  then obtain s' where
    r: "elitism_refs stable_argsort example_config tied_store tied_refs ?fs = Inr (s', [[3]])"
    and c: "read_individual s' [3] = tied_population ! 2"
    by (auto split: sum.splits prod.splits)
  have len: "length ?fs = length tied_refs" by (simp add: tied_refs_def)
  have wf: "\<forall>ind\<in>set tied_refs. \<forall>a\<in>set ind. a < next_free tied_store"
    by (simp add: tied_refs_def tied_store_def)
  have ok: "is_argsort ?fs (stable_argsort ?fs)" by (rule is_argsort_stable)
  have f: "fitness_all example_config tied_population = Inr ?fs" by code_simp
  from elitism_selects_and_copies[OF r len wf ok]
  have "elitism stable_argsort example_config (map (read_individual tied_store) tied_refs) ?fs =
          Inr (map (read_individual s') [[3]])"
    by blast
  then have "elitism stable_argsort example_config tied_population ?fs =
          Inr [tied_population ! 2]"
    by (simp add: map_read_tied c)
  with r c len ok f show ?thesis by blast
qed

text \<open>
  The claim as the specification states it fails: nothing makes the earlier slot win a tie.
  The three arrangements of \<open>tied_population\<close> have the same fitness; with the argsort that
  keeps equal values in population order (as a stable sort does), reading it backwards
  puts the last slot first, and the single elite is the arrangement of slot 2, not the one
  of slot 0.
\<close>

theorem elitism_tie_counterexample:
  "is_argsort [255 / 2, 255 / 2, 255 / 2] (stable_argsort [255 / 2, 255 / 2, 255 / 2]) \<and>
   stable_argsort [255 / 2, 255 / 2, 255 / 2] = [0, 1, 2] \<and>
   fitness_all example_config tied_population = Inr [255 / 2, 255 / 2, 255 / 2] \<and>
   elitism_count example_config = 1 \<and>
   elitism stable_argsort example_config tied_population [255 / 2, 255 / 2, 255 / 2] =
     Inr [[Furniture ''chair'' (1 / 20) (1 / 20) True 0 (1 / 20) 0]] \<and>
   tied_population ! 0 = [Furniture ''chair'' (1 / 20) (1 / 20) True 0 0 0] \<and>
   tied_population ! 2 = [Furniture ''chair'' (1 / 20) (1 / 20) True 0 (1 / 20) 0]"
proof -
  have "stable_argsort [255 / 2, 255 / 2, 255 / 2] = [0, 1, 2] \<and>
   fitness_all example_config tied_population = Inr [255 / 2, 255 / 2, 255 / 2] \<and>
   elitism_count example_config = 1 \<and>
   elitism stable_argsort example_config tied_population [255 / 2, 255 / 2, 255 / 2] =
     Inr [[Furniture ''chair'' (1 / 20) (1 / 20) True 0 (1 / 20) 0]] \<and>
   tied_population ! 0 = [Furniture ''chair'' (1 / 20) (1 / 20) True 0 0 0] \<and>
   tied_population ! 2 = [Furniture ''chair'' (1 / 20) (1 / 20) True 0 (1 / 20) 0]"
    by code_simp
  then show ?thesis using is_argsort_stable[of "[255 / 2, 255 / 2, 255 / 2]"] by blast
qed

end
